theory Spec2Isabelle
  imports Main "HOL-Library.Sublist"
begin

section \<open>The Action Parser (\<open>AgentCommunicationProtocol.parseToolCall\<close>)\<close>

text \<open>
  Strings are lists of \<^typ>\<open>char\<close>: the model covers texts whose UTF-16 code units are
  below 256. The two regular expressions of \<open>parseToolCall\<close> are translated into the
  deterministic scanners below. Every quantifier in them is greedy and is followed by a
  character outside the class it repeats, so the backtracking matcher of the source has at
  most one way to match at a given start position; \<open>String.prototype.match\<close> without the
  \<open>g\<close> flag returns the match with the leftmost start.
\<close>

definition is_word :: "char \<Rightarrow> bool" where
  \<comment> \<open>the class \<open>\w\<close>: \<open>[A-Za-z0-9_]\<close>\<close>
  "is_word c \<longleftrightarrow>
     (let n = (of_char c :: nat)
      in (48 \<le> n \<and> n \<le> 57) \<or> (65 \<le> n \<and> n \<le> 90) \<or> n = 95 \<or> (97 \<le> n \<and> n \<le> 122))"

definition is_space :: "char \<Rightarrow> bool" where
  \<comment> \<open>the class \<open>\s\<close> below code unit 256: tab, LF, VT, FF, CR, space, no-break space\<close>
  "is_space c \<longleftrightarrow>
     (let n = (of_char c :: nat) in (9 \<le> n \<and> n \<le> 13) \<or> n = 32 \<or> n = 160)"

definition is_line_terminator :: "char \<Rightarrow> bool" where
  \<comment> \<open>what \<open>.\<close> does not match (no \<open>s\<close> flag): LF and CR\<close>
  "is_line_terminator c \<longleftrightarrow> c = CHR 0x0A \<or> c = CHR 0x0D"

definition not_rparen :: "char \<Rightarrow> bool" where
  \<comment> \<open>the class \<open>[^)]\<close>\<close>
  "not_rparen c \<longleftrightarrow> c \<noteq> CHR '')''"

definition match_action_at :: "string \<Rightarrow> (string \<times> string) option" where
  \<comment> \<open>\<open>/Action:\s*(\w+(\.\w+)?)\(([^)]*)\)/\<close> anchored at the start of the text:
      groups 1 and 3\<close>
  "match_action_at s =
     (if take 7 s \<noteq> ''Action:'' then None
      else
        let s2 = dropWhile is_space (drop 7 s);
            w1 = takeWhile is_word s2;
            s3 = dropWhile is_word s2
        in if w1 = [] then None
           else
             let w2 = (case s3 of c # t \<Rightarrow> if c = CHR ''.'' then takeWhile is_word t else []
                       | [] \<Rightarrow> []);
                 name = (if w2 = [] then w1 else w1 @ ''.'' @ w2);
                 s4 = (if w2 = [] then s3 else dropWhile is_word (tl s3))
             in (case s4 of
                   [] \<Rightarrow> None
                 | c # s5 \<Rightarrow>
                     if c \<noteq> CHR ''('' then None
                     else (case dropWhile not_rparen s5 of
                             [] \<Rightarrow> None
                           | _ # _ \<Rightarrow> Some (name, takeWhile not_rparen s5))))"

fun match_action :: "string \<Rightarrow> (string \<times> string) option" where
  \<comment> \<open>\<open>response.match(...)\<close>: the first start position at which the pattern matches\<close>
  "match_action [] = None"
| "match_action (c # s) =
     (case match_action_at (c # s) of
        Some r \<Rightarrow> Some r
      | None \<Rightarrow> match_action s)"

fun scan_value :: "string \<Rightarrow> (string \<times> string) option" where
  \<comment> \<open>\<open>((?:[^"\\]|\\.)*)"\<close>: the group and the text after the closing quote\<close>
  "scan_value [] = None"
| "scan_value [c] = (if c = CHR 0x22 then Some ([], []) else None)"
| "scan_value (c # d # s) =
     (if c = CHR 0x22 then Some ([], d # s)
      else if c = CHR 0x5C then
        (if is_line_terminator d then None
         else (case scan_value s of
                 None \<Rightarrow> None
               | Some (v, r) \<Rightarrow> Some (c # d # v, r)))
      else (case scan_value (d # s) of
              None \<Rightarrow> None
            | Some (v, r) \<Rightarrow> Some (c # v, r)))"

definition match_param_at :: "string \<Rightarrow> (string \<times> string \<times> string) option" where
  \<comment> \<open>\<open>/(\w+)="((?:[^"\\]|\\.)*)"/\<close> anchored at the start of the text: groups 1 and 2
      and the text after the match\<close>
  "match_param_at s =
     (let k = takeWhile is_word s
      in if k = [] then None
         else (case dropWhile is_word s of
                 e # q # s2 \<Rightarrow>
                   if e = CHR ''='' \<and> q = CHR 0x22 then
                     (case scan_value s2 of
                        None \<Rightarrow> None
                      | Some (v, r) \<Rightarrow> Some (k, v, r))
                   else None
               | _ \<Rightarrow> None))"

lemma scan_value_shorter: "scan_value s = Some (v, r) \<Longrightarrow> length r < length s"
proof (induction s arbitrary: v r rule: scan_value.induct)
  case 1
  then show ?case by simp
next
  case (2 c)
  then show ?case by (simp split: if_splits)
next
  case (3 c d s)
  then show ?case
    by (fastforce split: if_splits option.splits)
qed

lemma match_param_at_shorter:
  assumes "match_param_at s = Some (k, v, r)"
  shows "length r < length s"
proof -
  from assms obtain s2 where d: "dropWhile is_word s = CHR ''='' # CHR 0x22 # s2"
    and sv: "scan_value s2 = Some (v, r)"
    by (auto simp: match_param_at_def Let_def split: if_splits list.splits option.splits)
  have "length (dropWhile is_word s) \<le> length s"
    by (rule length_dropWhile_le)
  with d scan_value_shorter [OF sv] show ?thesis by simp
qed

function matchAll_params :: "string \<Rightarrow> (string \<times> string) list" where
  \<comment> \<open>\<open>paramsString.matchAll(/.../g)\<close>: successive leftmost matches, each search
      resuming where the previous match ended\<close>
  "matchAll_params [] = []"
| "matchAll_params (c # s) =
     (case match_param_at (c # s) of
        None \<Rightarrow> matchAll_params s
      | Some (k, v, r) \<Rightarrow> (k, v) # matchAll_params r)"
  by pat_completeness auto
termination
proof (relation "measure length")
  show "wf (measure length)" by simp
next
  fix c :: char and s :: string
  show "(s, c # s) \<in> measure length" by simp
next
  fix c :: char and s :: string and x2 k y v r
  assume "match_param_at (c # s) = Some x2" "(k, y) = x2" "(v, r) = y"
  then have "match_param_at (c # s) = Some (k, v, r)" by simp
  from match_param_at_shorter [OF this] show "(r, c # s) \<in> measure length" by simp
qed

fun unescape :: "string \<Rightarrow> string" where
  \<comment> \<open>\<open>.replace(/\\"/g, '"')\<close>\<close>
  "unescape (a # b # s) =
     (if a = CHR 0x5C \<and> b = CHR 0x22 then CHR 0x22 # unescape s else a # unescape (b # s))"
| "unescape s = s"

type_synonym params = "string \<rightharpoonup> string"

definition set_property :: "params \<Rightarrow> string \<Rightarrow> string \<Rightarrow> params" where
  \<comment> \<open>\<open>params[key] = value\<close> on an object created by \<open>{}\<close>, the value a string: the key
      \<open>__proto__\<close> reaches the setter of \<open>Object.prototype\<close>, which ignores a value that is
      not an object, so no property is created\<close>
  "set_property obj k v = (if k = ''__proto__'' then obj else obj(k \<mapsto> v))"

record ToolCall =
  toolName :: string
  params :: params

definition parseToolCall :: "string \<Rightarrow> ToolCall option" where
  "parseToolCall response =
     (case match_action response of
        None \<Rightarrow> None
      | Some (name, paramsString) \<Rightarrow>
          Some \<lparr>toolName = name,
                params = fold (\<lambda>(k, v) ps. set_property ps k (unescape v))
                              (matchAll_params paramsString) Map.empty\<rparr>)"

section \<open>Conversation state, tool registry and model provider\<close>

datatype role = System | User | Assistant

record message =
  role :: role
  content :: string

text \<open>
  The collaborators are opaque to the agent loop. Their effects are made explicit by a
  world state \<open>'w\<close> that every external call reads and may change.

  A tool call settles in one of three ways. \<open>Returned s\<close>: the tool returned, and \<open>s\<close>
  is the text that \<open>typeof result === 'object' ? JSON.stringify(result) : String(result)\<close>
  gives for its result. \<open>Raised m\<close>: something was thrown inside the \<open>try\<close> block of
  \<open>executeToolCall\<close> and \<open>m\<close> is what \<open>${error.message}\<close> prints for it (the message of
  an \<open>Error\<close>). \<open>Threw_nullish m\<close>: the tool threw, or rejected with, \<open>null\<close> or
  \<open>undefined\<close>; reading \<open>error.message\<close> in the \<open>catch\<close> block of \<open>executeToolCall\<close> then
  raises a \<open>TypeError\<close>, and \<open>m\<close> is the message the engine gives it.
\<close>

datatype tool_outcome = Returned string | Raised string | Threw_nullish string

record 'w tool =
  docs :: string
    \<comment> \<open>\<open>tool.toString().match(/\/\*\*([\s\S]*?)\*\//)?.[1] || ''\<close>\<close>
  run :: "params \<Rightarrow> 'w \<Rightarrow> tool_outcome \<times> 'w"

text \<open>
  The registry is a JavaScript object. \<open>own\<close> lists its own enumerable properties in the
  order of \<open>Object.keys\<close>; \<open>inherited\<close> lists what a property read finds on its prototype
  chain (for an object literal, the members of \<open>Object.prototype\<close>), each with what
  calling it as \<open>tool(params)\<close> does. \<open>toolRegistry[toolName]\<close> reads own properties
  first and then inherited ones; \<open>Object.keys\<close> and \<open>Object.entries\<close> see own ones only.
\<close>

record 'w registry =
  own :: "(string \<times> 'w tool) list"
  inherited :: "(string \<times> 'w tool) list"

definition get_property :: "'w registry \<Rightarrow> string \<Rightarrow> 'w tool option" where
  "get_property reg name =
     (case map_of (own reg) name of
        Some t \<Rightarrow> Some t
      | None \<Rightarrow> map_of (inherited reg) name)"

definition keys :: "'w registry \<Rightarrow> string list" where
  "keys reg = map fst (own reg)"

fun join :: "string \<Rightarrow> string list \<Rightarrow> string" where
  \<comment> \<open>\<open>Array.prototype.join\<close>\<close>
  "join sep [] = []"
| "join sep [x] = x"
| "join sep (x # y # xs) = x @ sep @ join sep (y # xs)"

text \<open>
  The provider answers a buffered request with \<open>Inr text\<close>
  (\<open>response.choices[0].message.content\<close>) or fails with \<open>Inl message\<close>. It answers a
  streaming request with the chunks it yields, each reduced to its
  \<open>choices[0].delta.content\<close> (\<open>None\<close> when the chunk has none), and with the message of
  the error that ends the stream, if one does. The request options other than
  \<open>messages\<close> are constants and are left out.
\<close>

record 'w client =
  createChatCompletion :: "message list \<Rightarrow> 'w \<Rightarrow> (string + string) \<times> 'w"
  createChatCompletionStream ::
    "message list \<Rightarrow> 'w \<Rightarrow> (string option list \<times> string option) \<times> 'w"

record 'w agent =
  fireworksClient :: "'w client"
  toolRegistry :: "'w registry"
  messageHistory :: "message list"
  sessionId :: string

datatype error =
    InvalidInput string
  | ProviderFailure string
  | NotFound string
  | TypeError string

fun error_message :: "error \<Rightarrow> string" where
  \<comment> \<open>\<open>error.message\<close>\<close>
  "error_message (InvalidInput m) = m"
| "error_message (ProviderFailure m) = m"
| "error_message (NotFound m) = m"
| "error_message (TypeError m) = m"

definition push :: "'w agent \<Rightarrow> role \<Rightarrow> string \<Rightarrow> 'w agent" where
  \<comment> \<open>\<open>this.messageHistory.push({role, content})\<close>\<close>
  "push a r c = a\<lparr>messageHistory := messageHistory a @ [\<lparr>role = r, content = c\<rparr>]\<rparr>"

section \<open>Tool dispatch (\<open>executeToolCall\<close>)\<close>

definition executeToolCall :: "'w agent \<Rightarrow> ToolCall \<Rightarrow> 'w \<Rightarrow> (error + string) \<times> 'w" where
  \<comment> \<open>\<open>Inr\<close>: the observation the call returns; \<open>Inl\<close>: the error the call rejects with\<close>
  \<open>executeToolCall a tc w =
     (case get_property (toolRegistry a) (toolName tc) of
        None \<Rightarrow>
          (Inr (''Error: Tool "'' @ toolName tc @ ''" not found. Available tools are: ''
                  @ join '', '' (keys (toolRegistry a))), w)
      | Some t \<Rightarrow>
          (case run t (params tc) w of
             (Returned s, w') \<Rightarrow> (Inr s, w')
           | (Raised m, w') \<Rightarrow>
               (Inr (''Error executing tool '' @ toolName tc @ '': '' @ m), w')
           | (Threw_nullish m, w') \<Rightarrow> (Inl (TypeError m), w')))\<close>

section \<open>The system prompt (\<open>getSystemPrompt\<close>)\<close>

definition trim :: "string \<Rightarrow> string" where
  "trim s = rev (dropWhile is_space (rev (dropWhile is_space s)))"

definition toolDescriptions :: "'w registry \<Rightarrow> string" where
  "toolDescriptions reg =
     join ''\<newline>\<newline>''
       (map (\<lambda>(name, t). ''Tool: '' @ name @ ''\<newline>Description: ''
                            @ trim (filter (\<lambda>c. c \<noteq> CHR ''*'') (docs t)))
            (own reg))"

definition getSystemPrompt :: "'w agent \<Rightarrow> string" where
  \<open>getSystemPrompt a =
     ''You are IntelliBrowse, an autonomous web agent. You perform web tasks by breaking them into steps.\<newline>''
     @ ''Follow the ReAct pattern: Reason about what to do, take Actions, observe the results.\<newline>''
     @ ''\<newline>''
     @ ''When responding, use the following format:\<newline>''
     @ ''Thought: Think about what needs to be done and how to approach the task\<newline>''
     @ ''Action: tool_name(param1="value1", param2="value2")\<newline>''
     @ ''Observation: [Result of the action will appear here]\<newline>''
     @ ''... (repeat Thought/Action/Observation as needed)\<newline>''
     @ ''Thought: I now know the final answer\<newline>''
     @ ''Answer: [Final answer to the user's instruction]\<newline>''
     @ ''\<newline>''
     @ ''Available Tools:\<newline>''
     @ toolDescriptions (toolRegistry a) @ ''\<newline>''
     @ ''\<newline>''
     @ ''Always think through your approach before taking actions. Be thorough in your reasoning.\<newline>''
     @ ''When you have completed the task, respond with a clear summary of what you found or accomplished.''\<close>

section \<open>The buffered agent loop (\<open>continueConversation\<close>, \<open>processUserInstruction\<close>)\<close>

definition truthy :: "string option \<Rightarrow> bool" where
  \<comment> \<open>a value that is \<open>null\<close> (\<open>None\<close>) or a string: \<open>null\<close> and \<open>''\<close> are falsy\<close>
  "truthy x \<longleftrightarrow> (case x of None \<Rightarrow> False | Some s \<Rightarrow> s \<noteq> [])"

record 'w loop_result =
  outcome :: "error + string option"
    \<comment> \<open>\<open>Inl\<close>: the error that left the loop; \<open>Inr\<close>: \<open>finalResponse\<close> at loop exit\<close>
  turns_taken :: nat
  agent_after :: "'w agent"
  world_after :: 'w

function continue_while ::
  "nat \<Rightarrow> nat \<Rightarrow> string option \<Rightarrow> 'w agent \<Rightarrow> 'w \<Rightarrow> 'w loop_result" where
  \<comment> \<open>the \<open>while\<close> loop of \<open>continueConversation\<close> from the state
      \<open>(turns, finalResponse, this, world)\<close>\<close>
  "continue_while maxTurns turns finalResponse a w =
     (if \<not> truthy finalResponse \<and> turns < maxTurns then
        (case createChatCompletion (fireworksClient a) (messageHistory a) w of
           (Inl err, w1) \<Rightarrow>
             \<lparr>outcome = Inl (ProviderFailure err), turns_taken = turns + 1,
              agent_after = a, world_after = w1\<rparr>
         | (Inr modelResponse, w1) \<Rightarrow>
             (case parseToolCall modelResponse of
                Some toolCall \<Rightarrow>
                  (case executeToolCall (push a Assistant modelResponse) toolCall w1 of
                     (Inl err, w2) \<Rightarrow>
                       \<lparr>outcome = Inl err, turns_taken = turns + 1,
                        agent_after = push a Assistant modelResponse, world_after = w2\<rparr>
                   | (Inr observation, w2) \<Rightarrow>
                       continue_while maxTurns (turns + 1) finalResponse
                         (push (push a Assistant modelResponse) User
                               (''Observation: '' @ observation))
                         w2)
              | None \<Rightarrow>
                  continue_while maxTurns (turns + 1) (Some modelResponse)
                    (push a Assistant modelResponse) w1))
      else \<lparr>outcome = Inr finalResponse, turns_taken = turns,
            agent_after = a, world_after = w\<rparr>)"
  by pat_completeness auto
termination
  by (relation "measure (\<lambda>(maxTurns, turns, finalResponse, a, w). maxTurns - turns)") auto

definition lastAssistantMessage :: "message list \<Rightarrow> message option" where
  \<comment> \<open>\<open>.filter(msg => msg.role === 'assistant').pop()\<close>\<close>
  "lastAssistantMessage h =
     (case rev (filter (\<lambda>msg. role msg = Assistant) h) of
        [] \<Rightarrow> None
      | m # _ \<Rightarrow> Some m)"

record 'w call_result =
  returned :: "error + string"
  turns_used :: nat
  agent_now :: "'w agent"
  world_now :: 'w

definition budget_answer :: "message list \<Rightarrow> string" where
  \<comment> \<open>the value given to \<open>finalResponse\<close> after the loop when it is still falsy\<close>
  "budget_answer h =
     (case lastAssistantMessage h of
        Some m \<Rightarrow> content m @ ''\<newline>\<newline>[Note: Maximum conversation turns reached]''
      | None \<Rightarrow> ''Maximum conversation turns reached without a final answer.'')"

definition continueConversation :: "nat \<Rightarrow> 'w agent \<Rightarrow> 'w \<Rightarrow> 'w call_result" where
  "continueConversation maxTurns a w =
     (let r = continue_while maxTurns 0 None a w
      in \<lparr>returned =
            (case outcome r of
               Inl e \<Rightarrow> Inl e
             | Inr None \<Rightarrow> Inr (budget_answer (messageHistory (agent_after r)))
             | Inr (Some finalResponse) \<Rightarrow>
                 if finalResponse = [] then
                   Inr (budget_answer (messageHistory (agent_after r)))
                 else Inr finalResponse),
          turns_used = turns_taken r,
          agent_now = agent_after r,
          world_now = world_after r\<rparr>)"

definition initial_history :: "'w agent \<Rightarrow> string \<Rightarrow> message list" where
  "initial_history a instruction =
     [\<lparr>role = System, content = getSystemPrompt a\<rparr>,
      \<lparr>role = User, content = instruction\<rparr>]"

definition invalid :: "string option \<Rightarrow> bool" where
  \<comment> \<open>\<open>!instruction\<close> for an instruction that is absent (\<open>None\<close>) or a string\<close>
  "invalid instruction \<longleftrightarrow> \<not> truthy instruction"

definition processUserInstruction ::
  "'w agent \<Rightarrow> string option \<Rightarrow> 'w \<Rightarrow> 'w call_result" where
  \<comment> \<open>\<open>continueConversation()\<close> is called with its default \<open>maxTurns = 15\<close>\<close>
  "processUserInstruction a instruction w =
     (case instruction of
        None \<Rightarrow>
          \<lparr>returned = Inl (InvalidInput ''Instruction must be a non-empty string''),
           turns_used = 0, agent_now = a, world_now = w\<rparr>
      | Some text \<Rightarrow>
          if text = [] then
            \<lparr>returned = Inl (InvalidInput ''Instruction must be a non-empty string''),
             turns_used = 0, agent_now = a, world_now = w\<rparr>
          else
            continueConversation 15 (a\<lparr>messageHistory := initial_history a text\<rparr>) w)"

section \<open>The streaming agent loop (\<open>processInstructionStream\<close>)\<close>

datatype StreamEvent =
    SessionEv string
  | AssistantEv string
  | ToolCallEv string params
  | ObservationEv string
  | CompleteEv string
  | ErrorEv string

text \<open>
  What the generator does is recorded in order: \<open>Yield e\<close> for an event it yields, and
  \<open>Execute tc r\<close> for the point where it awaits \<open>this.executeToolCall(toolCall)\<close>,
  with what the call settles with: the observation it returns (\<open>Inr\<close>) or the error
  it rejects with (\<open>Inl\<close>), which the \<open>catch\<close> block of the generator handles.
\<close>

datatype step = Yield StreamEvent | Execute ToolCall "error + string"

definition chunk_contents :: "string option list \<Rightarrow> string list" where
  \<comment> \<open>the chunks that pass the test
      \<open>chunk.choices && chunk.choices[0].delta && chunk.choices[0].delta.content\<close>\<close>
  "chunk_contents chunks = filter (\<lambda>c. c \<noteq> []) (map (\<lambda>c. case c of None \<Rightarrow> [] | Some t \<Rightarrow> t) chunks)"

record 'w stream_result =
  trace :: "step list"
  failure :: "error option"
  turns_at_exit :: nat
  agent_end :: "'w agent"
  world_end :: 'w

function stream_while ::
  "nat \<Rightarrow> nat \<Rightarrow> step list \<Rightarrow> 'w agent \<Rightarrow> 'w \<Rightarrow> 'w stream_result" where
  \<comment> \<open>the \<open>while\<close> loop of \<open>processInstructionStream\<close> from the state
      \<open>(turns, what was done so far, this, world)\<close>\<close>
  "stream_while maxTurns turns sofar a w =
     (if turns < maxTurns then
        (case createChatCompletionStream (fireworksClient a) (messageHistory a) w of
           ((chunks, Some err), w1) \<Rightarrow>
             \<lparr>trace = sofar @ map (\<lambda>c. Yield (AssistantEv c)) (chunk_contents chunks),
              failure = Some (ProviderFailure err), turns_at_exit = turns + 1,
              agent_end = a, world_end = w1\<rparr>
         | ((chunks, None), w1) \<Rightarrow>
             (let assistantResponse = concat (chunk_contents chunks);
                  sofar1 = sofar @ map (\<lambda>c. Yield (AssistantEv c)) (chunk_contents chunks);
                  a1 = push a Assistant assistantResponse
              in case parseToolCall assistantResponse of
                   Some toolCall \<Rightarrow>
                     (case executeToolCall a1 toolCall w1 of
                        (Inr observation, w2) \<Rightarrow>
                          stream_while maxTurns (turns + 1)
                            (sofar1 @ [Yield (ToolCallEv (toolName toolCall) (params toolCall)),
                                      Execute toolCall (Inr observation),
                                      Yield (ObservationEv observation)])
                            (push a1 User (''Observation: '' @ observation))
                            w2
                      | (Inl err, w2) \<Rightarrow>
                          stream_while maxTurns (turns + 1)
                            (sofar1 @ [Yield (ToolCallEv (toolName toolCall) (params toolCall)),
                                      Execute toolCall (Inl err),
                                      Yield (ErrorEv (''Error executing tool '' @ toolName toolCall
                                                        @ '': '' @ error_message err))])
                            (push a1 User
                               (''Observation: '' @ ''Error executing tool '' @ toolName toolCall
                                  @ '': '' @ error_message err))
                            w2)
                 | None \<Rightarrow>
                     \<lparr>trace = sofar1 @ [Yield (CompleteEv assistantResponse)],
                      failure = None, turns_at_exit = turns + 1,
                      agent_end = a1, world_end = w1\<rparr>))
      else \<lparr>trace = sofar, failure = None, turns_at_exit = turns,
            agent_end = a, world_end = w\<rparr>)"
  by pat_completeness auto
termination
  by (relation "measure (\<lambda>(maxTurns, turns, sofar, a, w). maxTurns - turns)") auto

definition processInstructionStream ::
  "'w agent \<Rightarrow> string option \<Rightarrow> 'w \<Rightarrow> 'w stream_result" where
  "processInstructionStream a instruction w =
     (case instruction of
        None \<Rightarrow>
          \<lparr>trace = [], failure = Some (InvalidInput ''Instruction must be a non-empty string''),
           turns_at_exit = 0, agent_end = a, world_end = w\<rparr>
      | Some text \<Rightarrow>
          if text = [] then
            \<lparr>trace = [], failure = Some (InvalidInput ''Instruction must be a non-empty string''),
             turns_at_exit = 0, agent_end = a, world_end = w\<rparr>
          else
            (let r = stream_while 15 0 [] (a\<lparr>messageHistory := initial_history a text\<rparr>) w
             in if failure r = None \<and> turns_at_exit r \<ge> 15 then
                  r\<lparr>trace := trace r @ [Yield (ErrorEv ''Maximum conversation turns reached.'')]\<rparr>
                else r))"

definition events :: "step list \<Rightarrow> StreamEvent list" where
  \<comment> \<open>the event sequence a consumer of the generator receives\<close>
  "events tr = concat (map (\<lambda>s. case s of Yield e \<Rightarrow> [e] | Execute _ _ \<Rightarrow> []) tr)"

section \<open>The orchestration facade (\<open>AgentService\<close>)\<close>

record 'w service =
  svc_fireworksClient :: "'w client"
  svc_toolRegistry :: "'w registry"
  sessions :: "string \<rightharpoonup> 'w agent"
  initialized :: bool

definition new_agent :: "'w client \<Rightarrow> 'w registry \<Rightarrow> string \<Rightarrow> 'w agent" where
  \<comment> \<open>\<open>new AgentCommunicationProtocol(fireworksClient, toolRegistry)\<close>, where
      \<open>generateSessionId()\<close> returns the given id\<close>
  "new_agent c reg fresh =
     \<lparr>fireworksClient = c, toolRegistry = reg, messageHistory = [], sessionId = fresh\<rparr>"

definition get_or_create ::
  "'w service \<Rightarrow> string \<Rightarrow> string option \<Rightarrow> string \<times> 'w agent \<times> bool" where
  \<comment> \<open>the session id, the agent and whether it was created:
      \<open>if (sessionId && this.sessions.has(sessionId)) ... else ...\<close>\<close>
  "get_or_create svc fresh sid =
     (case sid of
        None \<Rightarrow> (fresh, new_agent (svc_fireworksClient svc) (svc_toolRegistry svc) fresh, True)
      | Some i \<Rightarrow>
          (case (if i = [] then None else sessions svc i) of
             Some agent \<Rightarrow> (i, agent, False)
           | None \<Rightarrow>
               (fresh, new_agent (svc_fireworksClient svc) (svc_toolRegistry svc) fresh, True)))"

record 'w service_result =
  result :: "error + string \<times> string"
    \<comment> \<open>\<open>Inr (sessionId, response)\<close>\<close>
  service_after :: "'w service"
  world_final :: 'w

definition processInstruction ::
  "'w service \<Rightarrow> string \<Rightarrow> string option \<Rightarrow> string option \<Rightarrow> 'w \<Rightarrow> 'w service_result" where
  \<comment> \<open>\<open>fresh\<close> is the id \<open>generateSessionId()\<close> gives if a session is created\<close>
  "processInstruction svc fresh sid instruction w =
     (let svc1 = svc\<lparr>initialized := True\<rparr>
      in if invalid instruction then
           \<lparr>result = Inl (InvalidInput ''Instruction is required''),
            service_after = svc1, world_final = w\<rparr>
         else
           (case get_or_create svc1 fresh sid of
              (i, agent, created) \<Rightarrow>
                (let r = processUserInstruction agent instruction w
                 in \<lparr>result = (case returned r of Inl e \<Rightarrow> Inl e
                                | Inr response \<Rightarrow> Inr (i, response)),
                     service_after = svc1\<lparr>sessions := (sessions svc1)(i \<mapsto> agent_now r)\<rparr>,
                     world_final = world_now r\<rparr>)))"

record 'w service_stream_result =
  emitted :: "step list"
  thrown :: "error option"
  service_end :: "'w service"
  world_last :: 'w

definition service_processInstructionStream ::
  "'w service \<Rightarrow> string \<Rightarrow> string option \<Rightarrow> string option \<Rightarrow> 'w
     \<Rightarrow> 'w service_stream_result" where
  \<comment> \<open>\<open>AgentService.processInstructionStream\<close>\<close>
  "service_processInstructionStream svc fresh sid instruction w =
     (let svc1 = svc\<lparr>initialized := True\<rparr>
      in if invalid instruction then
           \<lparr>emitted = [], thrown = Some (InvalidInput ''Instruction is required''),
            service_end = svc1, world_last = w\<rparr>
         else
           (case get_or_create svc1 fresh sid of
              (i, agent, created) \<Rightarrow>
                (let r = processInstructionStream agent instruction w
                 in \<lparr>emitted = (if created then [Yield (SessionEv i)] else []) @ trace r,
                     thrown = failure r,
                     service_end = svc1\<lparr>sessions := (sessions svc1)(i \<mapsto> agent_end r)\<rparr>,
                     world_last = world_end r\<rparr>)))"

definition createSession :: "'w service \<Rightarrow> string \<Rightarrow> string \<times> 'w service" where
  "createSession svc fresh =
     (fresh,
      svc\<lparr>sessions := (sessions svc)
             (fresh \<mapsto> new_agent (svc_fireworksClient svc) (svc_toolRegistry svc) fresh)\<rparr>)"

definition getSessionInfo ::
  "'w service \<Rightarrow> string option \<Rightarrow> error + string \<times> message list" where
  \<comment> \<open>\<open>Inr (sessionId, messageHistory)\<close>; an absent id prints as \<open>undefined\<close>\<close>
  "getSessionInfo svc sid =
     (case sid of
        None \<Rightarrow> Inl (NotFound ''Session undefined not found'')
      | Some i \<Rightarrow>
          (case (if i = [] then None else sessions svc i) of
             None \<Rightarrow> Inl (NotFound (''Session '' @ i @ '' not found''))
           | Some agent \<Rightarrow> Inr (i, messageHistory agent)))"

section \<open>Properties the claims speak about\<close>

subsection \<open>Well-formed Action lines\<close>

text \<open>
  The text of a well-formed Action line, as the system prompt asks for it:
  \<open>Action: name(k1="v1", ..., kn="vn")\<close>, where each value is written with every
  double quote preceded by a backslash. A parameter is well formed when its key is a
  non-empty word other than \<open>__proto__\<close> and its value holds no backslash and no
  closing parenthesis.
\<close>

definition is_identifier :: "string \<Rightarrow> bool" where
  "is_identifier s \<longleftrightarrow> s \<noteq> [] \<and> list_all is_word s"

definition escape_quotes :: "string \<Rightarrow> string" where
  "escape_quotes v = concat (map (\<lambda>c. if c = CHR 0x22 then [CHR 0x5C, CHR 0x22] else [c]) v)"

definition plain_value :: "string \<Rightarrow> bool" where
  "plain_value v \<longleftrightarrow> list_all (\<lambda>c. c \<noteq> CHR 0x5C \<and> c \<noteq> CHR '')'') v"

definition render_param :: "string \<times> string \<Rightarrow> string" where
  \<open>render_param kv = fst kv @ ''="'' @ escape_quotes (snd kv) @ ''"''\<close>

definition action_line :: "string \<Rightarrow> (string \<times> string) list \<Rightarrow> string" where
  "action_line name kvs =
     ''Action: '' @ name @ ''('' @ join '', '' (map render_param kvs) @ '')''"

definition well_formed_param :: "string \<times> string \<Rightarrow> bool" where
  "well_formed_param kv \<longleftrightarrow>
     is_identifier (fst kv) \<and> fst kv \<noteq> ''__proto__'' \<and> plain_value (snd kv)"

subsection \<open>Turns that call a tool\<close>


subsection \<open>The shape of a Conversation State\<close>

text \<open>
  The shape of a Conversation State: \<open>system_once\<close> says that the first message has
  role \<open>system\<close> and no other message has; \<open>ends_settled\<close> says that the last message
  is an \<open>assistant\<close> message from which \<open>parseToolCall\<close> extracts nothing, or a \<open>user\<close>
  message whose content starts with \<open>Observation: \<close>.
\<close>

definition system_once :: "message list \<Rightarrow> bool" where
  "system_once h \<longleftrightarrow>
     (case h of
        [] \<Rightarrow> False
      | m # rest \<Rightarrow> role m = System \<and> filter (\<lambda>x. role x = System) rest = [])"

definition ends_settled :: "message list \<Rightarrow> bool" where
  "ends_settled h \<longleftrightarrow>
     (case rev h of
        [] \<Rightarrow> False
      | l # _ \<Rightarrow>
          (role l = Assistant \<and> parseToolCall (content l) = None)
          \<or> (role l = User \<and> take 13 (content l) = ''Observation: ''))"

definition settled :: "'w agent \<Rightarrow> bool" where
  "settled a \<longleftrightarrow> system_once (messageHistory a) \<and> ends_settled (messageHistory a)"

subsection \<open>What a streaming run emits\<close>



text \<open>
  \<open>rejections\<close> are the errors with which executions of a run were rejected, in order.
\<close>

definition rejections :: "step list \<Rightarrow> error list" where
  "rejections tr =
     concat (map (\<lambda>s. case s of Execute tc (Inl err) \<Rightarrow> [err] | _ \<Rightarrow> []) tr)"

text \<open>
  A \<open>complete\<close> or \<open>error\<close> event is \<open>terminal\<close>; \<open>terminals\<close> are the terminal
  events of a run, in order.
\<close>

definition terminal :: "StreamEvent \<Rightarrow> bool" where
  "terminal e \<longleftrightarrow> (case e of CompleteEv _ \<Rightarrow> True | ErrorEv _ \<Rightarrow> True | _ \<Rightarrow> False)"

definition terminals :: "step list \<Rightarrow> StreamEvent list" where
  "terminals tr = filter terminal (events tr)"

subsection \<open>Stubs that agree in both modes\<close>

text \<open>
  A deterministic model stub serves both modes when, for every message list and
  world, the chunks of its streaming answer concatenate to the text of its buffered
  answer, both answers leave the same world, and a failure in one mode is the same
  failure in the other.
\<close>

definition agrees :: "'w client \<Rightarrow> bool" where
  "agrees c \<longleftrightarrow>
     (\<forall>h w. case createChatCompletion c h w of
              (Inr t, w1) \<Rightarrow>
                (\<exists>chunks. createChatCompletionStream c h w = ((chunks, None), w1)
                          \<and> concat (chunk_contents chunks) = t)
            | (Inl e, w1) \<Rightarrow>
                (\<exists>chunks. createChatCompletionStream c h w = ((chunks, Some e), w1)))"

subsection \<open>Reading a session\<close>

text \<open>
  \<open>history_of\<close> reads the history of a session through \<open>getSessionInfo\<close>.
\<close>

definition history_of :: "'w service \<Rightarrow> string \<Rightarrow> message list" where
  "history_of svc i = (case getSessionInfo svc (Some i) of Inr (_, h) \<Rightarrow> h | Inl _ \<Rightarrow> [])"

section \<open>Example collaborators\<close>

text \<open>
  A deterministic model stub that answers from the message list it is sent, in both
  modes (the streaming answer arrives as one chunk), and a registry with a tool that
  succeeds, a tool that raises, and the \<open>toString\<close> method that every object literal
  inherits from \<open>Object.prototype\<close> (called with \<open>this\<close> undefined it returns
  \<open>[object Undefined]\<close>). The world state is trivial.
\<close>

definition stub_client :: "(message list \<Rightarrow> string) \<Rightarrow> unit client" where
  "stub_client f =
     \<lparr>createChatCompletion = (\<lambda>h w. (Inr (f h), w)),
      createChatCompletionStream = (\<lambda>h w. (([Some (f h)], None), w))\<rparr>"

definition example_registry :: "unit registry" where
  "example_registry =
     \<lparr>own =
        [(''echo'', \<lparr>docs = '' * Repeats its input '', run = (\<lambda>p w. (Returned ''ok'', w))\<rparr>),
         (''boom'', \<lparr>docs = [], run = (\<lambda>p w. (Raised ''kaput'', w))\<rparr>)],
      inherited =
        [(''toString'',
          \<lparr>docs = [], run = (\<lambda>p w. (Returned ''[object Undefined]'', w))\<rparr>)]\<rparr>"

definition example_agent :: "(message list \<Rightarrow> string) \<Rightarrow> unit agent" where
  "example_agent f = new_agent (stub_client f) example_registry ''session-1''"

definition example_service :: "unit service" where
  "example_service =
     \<lparr>svc_fireworksClient = stub_client (\<lambda>h. ''hi''), svc_toolRegistry = example_registry,
      sessions = Map.empty, initialized = False\<rparr>"

text \<open>
  \<open>void_registry\<close> holds one tool, whose promise is rejected with \<open>null\<close>: reading
  \<open>error.message\<close> in the \<open>catch\<close> block of \<open>executeToolCall\<close> then raises the
  \<open>TypeError\<close> of the engine. \<open>void_then_done\<close> is a model that asks for that tool on
  its first turn and answers \<open>done\<close> afterwards.
\<close>

definition void_registry :: "unit registry" where
  "void_registry =
     \<lparr>own =
        [(''void'',
          \<lparr>docs = [],
           run = (\<lambda>p w. (Threw_nullish
                    ''Cannot read properties of null (reading 'message')'', w))\<rparr>)],
      inherited = []\<rparr>"

definition void_agent :: "(message list \<Rightarrow> string) \<Rightarrow> unit agent" where
  "void_agent f = new_agent (stub_client f) void_registry ''session-1''"


text \<open>
  \<open>late_answer\<close> is a model that asks for a tool on its first 14 turns (the message
  list it is sent then has fewer than 30 entries) and gives its final answer on the
  15th. \<open>empty_then_hello\<close> is a model whose first response is the empty text and whose
  later responses are \<open>hello\<close>.
\<close>

definition late_answer :: "message list \<Rightarrow> string" where
  "late_answer h = (if length h < 30 then ''Action: echo()'' else ''done'')"

definition empty_then_hello :: "message list \<Rightarrow> string" where
  "empty_then_hello h = (if length h \<le> 2 then [] else ''hello'')"

text \<open>
  \<open>first_call\<close> starts a session with the instruction \<open>first\<close>; \<open>second_call\<close>
  sends the instruction \<open>second\<close> with the session id that the first call returned.
\<close>

definition first_call :: "unit service_result" where
  "first_call = processInstruction example_service ''session-1'' None (Some ''first'') ()"

definition second_call :: "unit service_result" where
  "second_call =
     processInstruction (service_after first_call) ''session-2'' (Some ''session-1'')
       (Some ''second'') ()"

section \<open>Verification\<close>

declare continue_while.simps [simp del]

declare stream_while.simps [simp del]

lemmas eval_defs = parseToolCall_def match_action_at_def match_param_at_def is_word_def
  is_space_def not_rparen_def is_line_terminator_def Let_def set_property_def
  executeToolCall_def get_property_def keys_def push_def stub_client_def
  example_registry_def example_agent_def new_agent_def void_registry_def void_agent_def

subsection \<open>One iteration of each loop\<close>

lemma continue_while_cases [case_names stop fail answer reject tool]:
  obtains
    (stop) "\<not> (\<not> truthy fr \<and> turns < maxTurns)"
      "continue_while maxTurns turns fr a w
         = \<lparr>outcome = Inr fr, turns_taken = turns, agent_after = a, world_after = w\<rparr>"
  | (fail) err w1 where "\<not> truthy fr" "turns < maxTurns"
      "createChatCompletion (fireworksClient a) (messageHistory a) w = (Inl err, w1)"
      "continue_while maxTurns turns fr a w
         = \<lparr>outcome = Inl (ProviderFailure err), turns_taken = turns + 1,
            agent_after = a, world_after = w1\<rparr>"
  | (answer) resp w1 where "\<not> truthy fr" "turns < maxTurns"
      "createChatCompletion (fireworksClient a) (messageHistory a) w = (Inr resp, w1)"
      "parseToolCall resp = None"
      "continue_while maxTurns turns fr a w
         = continue_while maxTurns (turns + 1) (Some resp) (push a Assistant resp) w1"
  | (reject) resp w1 tc err w2 where "\<not> truthy fr" "turns < maxTurns"
      "createChatCompletion (fireworksClient a) (messageHistory a) w = (Inr resp, w1)"
      "parseToolCall resp = Some tc"
      "executeToolCall (push a Assistant resp) tc w1 = (Inl err, w2)"
      "continue_while maxTurns turns fr a w
         = \<lparr>outcome = Inl err, turns_taken = turns + 1,
            agent_after = push a Assistant resp, world_after = w2\<rparr>"
  | (tool) resp w1 tc obs w2 where "\<not> truthy fr" "turns < maxTurns"
      "createChatCompletion (fireworksClient a) (messageHistory a) w = (Inr resp, w1)"
      "parseToolCall resp = Some tc"
      "executeToolCall (push a Assistant resp) tc w1 = (Inr obs, w2)"
      "continue_while maxTurns turns fr a w
         = continue_while maxTurns (turns + 1) fr
             (push (push a Assistant resp) User (''Observation: '' @ obs)) w2"
proof (cases "\<not> truthy fr \<and> turns < maxTurns")
  case False
  then have "continue_while maxTurns turns fr a w
         = \<lparr>outcome = Inr fr, turns_taken = turns, agent_after = a, world_after = w\<rparr>"
    by (subst continue_while.simps) auto
  with False show ?thesis by (rule stop)
next
  case True
  obtain r w1 where m: "createChatCompletion (fireworksClient a) (messageHistory a) w = (r, w1)"
    by fastforce
  show ?thesis
  proof (cases r)
    case (Inl err)
    with True m show ?thesis
      by (intro fail [of err w1]; (subst continue_while.simps)?; simp)
  next
    case (Inr resp)
    show ?thesis
    proof (cases "parseToolCall resp")
      case None
      with True m Inr show ?thesis
        by (intro answer [of resp w1]; (subst continue_while.simps)?; simp)
    next
      case (Some tc)
      obtain r2 w2 where e: "executeToolCall (push a Assistant resp) tc w1 = (r2, w2)"
        by fastforce
      show ?thesis
      proof (cases r2)
        case e2: (Inl err)
        with True m Inr Some e show ?thesis
          by (intro reject [of resp w1 tc err w2]; (subst continue_while.simps)?; simp)
      next
        case e2: (Inr obs)
        with True m Inr Some e show ?thesis
          by (intro tool [of resp w1 tc obs w2]; (subst continue_while.simps)?; simp)
      qed
    qed
  qed
qed

lemma stream_while_cases [case_names stop fail complete caught tool]:
  obtains
    (stop) "\<not> turns < maxTurns"
      "stream_while maxTurns turns sofar a w
         = \<lparr>trace = sofar, failure = None, turns_at_exit = turns, agent_end = a, world_end = w\<rparr>"
  | (fail) chunks err w1 where "turns < maxTurns"
      "createChatCompletionStream (fireworksClient a) (messageHistory a) w
         = ((chunks, Some err), w1)"
      "stream_while maxTurns turns sofar a w
         = \<lparr>trace = sofar @ map (\<lambda>c. Yield (AssistantEv c)) (chunk_contents chunks),
            failure = Some (ProviderFailure err), turns_at_exit = turns + 1,
            agent_end = a, world_end = w1\<rparr>"
  | (complete) chunks w1 where "turns < maxTurns"
      "createChatCompletionStream (fireworksClient a) (messageHistory a) w
         = ((chunks, None), w1)"
      "parseToolCall (concat (chunk_contents chunks)) = None"
      "stream_while maxTurns turns sofar a w
         = \<lparr>trace = sofar @ map (\<lambda>c. Yield (AssistantEv c)) (chunk_contents chunks)
                     @ [Yield (CompleteEv (concat (chunk_contents chunks)))],
            failure = None, turns_at_exit = turns + 1,
            agent_end = push a Assistant (concat (chunk_contents chunks)), world_end = w1\<rparr>"
  | (caught) chunks w1 tc err w2 where "turns < maxTurns"
      "createChatCompletionStream (fireworksClient a) (messageHistory a) w
         = ((chunks, None), w1)"
      "parseToolCall (concat (chunk_contents chunks)) = Some tc"
      "executeToolCall (push a Assistant (concat (chunk_contents chunks))) tc w1
         = (Inl err, w2)"
      "stream_while maxTurns turns sofar a w
         = stream_while maxTurns (turns + 1)
             (sofar @ map (\<lambda>c. Yield (AssistantEv c)) (chunk_contents chunks)
                @ [Yield (ToolCallEv (toolName tc) (params tc)), Execute tc (Inl err),
                   Yield (ErrorEv (''Error executing tool '' @ toolName tc @ '': ''
                                   @ error_message err))])
             (push (push a Assistant (concat (chunk_contents chunks))) User
                (''Observation: '' @ ''Error executing tool '' @ toolName tc @ '': ''
                 @ error_message err))
             w2"
  | (tool) chunks w1 tc obs w2 where "turns < maxTurns"
      "createChatCompletionStream (fireworksClient a) (messageHistory a) w
         = ((chunks, None), w1)"
      "parseToolCall (concat (chunk_contents chunks)) = Some tc"
      "executeToolCall (push a Assistant (concat (chunk_contents chunks))) tc w1
         = (Inr obs, w2)"
      "stream_while maxTurns turns sofar a w
         = stream_while maxTurns (turns + 1)
             (sofar @ map (\<lambda>c. Yield (AssistantEv c)) (chunk_contents chunks)
                @ [Yield (ToolCallEv (toolName tc) (params tc)), Execute tc (Inr obs),
                   Yield (ObservationEv obs)])
             (push (push a Assistant (concat (chunk_contents chunks))) User
                (''Observation: '' @ obs))
             w2"
proof (cases "turns < maxTurns")
  case False
  then have "stream_while maxTurns turns sofar a w
         = \<lparr>trace = sofar, failure = None, turns_at_exit = turns, agent_end = a, world_end = w\<rparr>"
    by (subst stream_while.simps) auto
  with False show ?thesis by (rule stop)
next
  case True
  obtain chunks e w1 where
    m: "createChatCompletionStream (fireworksClient a) (messageHistory a) w = ((chunks, e), w1)"
    by (metis surj_pair)
  show ?thesis
  proof (cases e)
    case (Some err)
    with True m show ?thesis
      by (intro fail [of chunks err w1]; (subst stream_while.simps)?; simp)
  next
    case None
    show ?thesis
    proof (cases "parseToolCall (concat (chunk_contents chunks))")
      case pn: None
      with True m None show ?thesis
        by (intro complete [of chunks w1]; (subst stream_while.simps)?; simp add: Let_def)
    next
      case (Some tc)
      obtain r2 w2 where
        e: "executeToolCall (push a Assistant (concat (chunk_contents chunks))) tc w1 = (r2, w2)"
        by fastforce
      show ?thesis
      proof (cases r2)
        case e2: (Inl err)
        with True m None Some e show ?thesis
          by (intro caught [of chunks w1 tc err w2]; (subst stream_while.simps)?;
              simp add: Let_def)
      next
        case e2: (Inr obs)
        with True m None Some e show ?thesis
          by (intro tool [of chunks w1 tc obs w2]; (subst stream_while.simps)?;
              simp add: Let_def)
      qed
    qed
  qed
qed

subsection \<open>Events of a trace\<close>

lemma events_append [simp]: "events (xs @ ys) = events xs @ events ys"
  by (simp add: events_def)

lemma events_assistant:
  "events (map (\<lambda>c. Yield (AssistantEv c)) cs) = map AssistantEv cs"
  by (induction cs) (simp_all add: events_def)

lemma events_Cons [simp]:
  "events [] = []"
  "events (Yield e # tr) = e # events tr"
  "events (Execute tc r # tr) = events tr"
  by (simp_all add: events_def)

lemma terminals_append [simp]: "terminals (xs @ ys) = terminals xs @ terminals ys"
  by (simp add: terminals_def events_def)

lemma terminals_assistant [simp]: "terminals (map (\<lambda>c. Yield (AssistantEv c)) cs) = []"
  by (induction cs) (simp_all add: terminals_def events_def terminal_def)

lemma terminals_simps [simp]:
  "terminals [] = []"
  "terminals (Yield (CompleteEv c) # tr) = CompleteEv c # terminals tr"
  "terminals (Yield (ErrorEv c) # tr) = ErrorEv c # terminals tr"
  "terminals (Yield (ToolCallEv n p) # tr) = terminals tr"
  "terminals (Yield (ObservationEv c) # tr) = terminals tr"
  "terminals (Execute tc r # tr) = terminals tr"
  by (simp_all add: terminals_def events_def terminal_def)

lemma fireworksClient_push [simp]: "fireworksClient (push a r c) = fireworksClient a"
  by (simp add: push_def)

lemma rejections_append [simp]: "rejections (xs @ ys) = rejections xs @ rejections ys"
  by (simp add: rejections_def)

lemma rejections_assistant [simp]: "rejections (map (\<lambda>c. Yield (AssistantEv c)) cs) = []"
  by (induction cs) (simp_all add: rejections_def)

lemma rejections_simps [simp]:
  "rejections [] = []"
  "rejections (Yield e # tr) = rejections tr"
  "rejections (Execute tc (Inr obs) # tr) = rejections tr"
  "rejections (Execute tc (Inl err) # tr) = err # rejections tr"
  by (simp_all add: rejections_def)

subsection \<open>What a loop leaves in place\<close>

text \<open>
  Both loops only append to the history, the streaming loop only appends to what it
  has emitted, and the turn counter only grows.
\<close>

lemma prefix_push: "prefix h (messageHistory a) \<Longrightarrow> prefix h (messageHistory (push a r c))"
  by (auto simp: push_def prefix_def)

lemma continue_while_extends:
  "prefix (messageHistory a) (messageHistory (agent_after (continue_while maxTurns turns fr a w)))"
proof (induction "maxTurns - turns" arbitrary: turns fr a w)
  case 0
  then show ?case
    by (cases rule: continue_while_cases [of fr turns maxTurns a w]) simp_all
next
  case (Suc n)
  then have n: "n = maxTurns - (turns + 1)" by simp
  show ?case
  proof (cases rule: continue_while_cases [of fr turns maxTurns a w])
    case stop
    then show ?thesis by simp
  next
    case (fail err w1)
    then show ?thesis by simp
  next
    case (answer resp w1)
    from Suc.hyps(1) [OF n, where fr = "Some resp" and a = "push a Assistant resp" and w = w1]
    show ?thesis unfolding answer(5)
      by (rule prefix_order.trans [rotated]) (simp add: prefix_push)
  next
    case (reject resp w1 tc err w2)
    then show ?thesis by (simp add: prefix_push)
  next
    case (tool resp w1 tc obs w2)
    from Suc.hyps(1) [OF n, where fr = fr
        and a = "push (push a Assistant resp) User (''Observation: '' @ obs)" and w = w2]
    show ?thesis unfolding tool(6)
      by (rule prefix_order.trans [rotated]) (simp add: prefix_push)
  qed
qed

lemma stream_while_extends:
  "prefix (messageHistory a) (messageHistory (agent_end (stream_while maxTurns turns sofar a w)))"
proof (induction "maxTurns - turns" arbitrary: turns sofar a w)
  case 0
  then show ?case
    by (cases rule: stream_while_cases [of turns maxTurns sofar a w]) simp_all
next
  case (Suc n)
  then have n: "n = maxTurns - (turns + 1)" by simp
  show ?case
  proof (cases rule: stream_while_cases [of turns maxTurns sofar a w])
    case stop
    then show ?thesis by simp
  next
    case (fail chunks err w1)
    then show ?thesis by simp
  next
    case (complete chunks w1)
    then show ?thesis by (simp add: prefix_push)
  next
    case (caught chunks w1 tc err w2)
    from Suc.hyps(1) [OF n]
    show ?thesis unfolding caught(5)
      by (rule prefix_order.trans [rotated]) (simp add: prefix_push)
  next
    case (tool chunks w1 tc obs w2)
    from Suc.hyps(1) [OF n]
    show ?thesis unfolding tool(5)
      by (rule prefix_order.trans [rotated]) (simp add: prefix_push)
  qed
qed

lemma stream_while_trace_extends:
  "prefix sofar (trace (stream_while maxTurns turns sofar a w))"
proof (induction "maxTurns - turns" arbitrary: turns sofar a w)
  case 0
  then show ?case
    by (cases rule: stream_while_cases [of turns maxTurns sofar a w]) simp_all
next
  case (Suc n)
  then have n: "n = maxTurns - (turns + 1)" by simp
  show ?case
  proof (cases rule: stream_while_cases [of turns maxTurns sofar a w])
    case stop
    then show ?thesis by simp
  next
    case (fail chunks err w1)
    then show ?thesis by simp
  next
    case (complete chunks w1)
    then show ?thesis by simp
  next
    case (caught chunks w1 tc err w2)
    from Suc.hyps(1) [OF n]
    show ?thesis unfolding caught(5)
      by (rule prefix_order.trans [rotated]) simp
  next
    case (tool chunks w1 tc obs w2)
    from Suc.hyps(1) [OF n]
    show ?thesis unfolding tool(5)
      by (rule prefix_order.trans [rotated]) simp
  qed
qed

lemma continue_while_turns_ge:
  "turns \<le> turns_taken (continue_while maxTurns turns fr a w)"
proof (induction "maxTurns - turns" arbitrary: turns fr a w)
  case 0
  then show ?case
    by (cases rule: continue_while_cases [of fr turns maxTurns a w]) simp_all
next
  case (Suc n)
  then have n: "n = maxTurns - (turns + 1)" by simp
  show ?case
  proof (cases rule: continue_while_cases [of fr turns maxTurns a w])
    case stop
    then show ?thesis by simp
  next
    case (fail err w1)
    then show ?thesis by simp
  next
    case (answer resp w1)
    from Suc.hyps(1) [OF n, where fr = "Some resp" and a = "push a Assistant resp" and w = w1]
    show ?thesis unfolding answer(5) by simp
  next
    case (reject resp w1 tc err w2)
    then show ?thesis by simp
  next
    case (tool resp w1 tc obs w2)
    from Suc.hyps(1) [OF n, where fr = fr
        and a = "push (push a Assistant resp) User (''Observation: '' @ obs)" and w = w2]
    show ?thesis unfolding tool(6) by simp
  qed
qed

lemma continue_while_next_turn:
  assumes "\<not> truthy fr" and "turns < maxTurns"
  shows "turns + 1 \<le> turns_taken (continue_while maxTurns turns fr a w)"
proof (cases rule: continue_while_cases [of fr turns maxTurns a w])
  case stop
  with assms show ?thesis by simp
next
  case (fail err w1)
  then show ?thesis by simp
next
  case (answer resp w1)
  show ?thesis unfolding answer(5) by (rule continue_while_turns_ge)
next
  case (reject resp w1 tc err w2)
  then show ?thesis by simp
next
  case (tool resp w1 tc obs w2)
  show ?thesis unfolding tool(6) by (rule continue_while_turns_ge)
qed

subsection \<open>The Action Parser on well-formed Action lines\<close>

lemma no_A_inside:
  assumes "1 \<le> k" "k \<le> 6"
  shows "''Action:'' ! k \<noteq> CHR ''A''"
proof -
  from assms have "k = 1 \<or> k = 2 \<or> k = 3 \<or> k = 4 \<or> k = 5 \<or> k = 6" by arith
  then show ?thesis by (elim disjE) simp_all
qed

lemma no_overlap:
  assumes "q \<noteq> []" and "\<not> sublist ''Action:'' q"
  shows "take 7 (q @ ''Action:'' @ r) \<noteq> ''Action:''"
proof
  assume eq: "take 7 (q @ ''Action:'' @ r) = ''Action:''"
  show False
  proof (cases "7 \<le> length q")
    case True
    with eq have "take 7 q = ''Action:''" by simp
    then have "q = ''Action:'' @ drop 7 q"
      by (metis append_take_drop_id)
    then have "sublist ''Action:'' q"
      by (metis sublist_appendI append_Nil)
    with assms show False by simp
  next
    case False
    define k where "k = length q"
    with False assms(1) have k: "1 \<le> k" "k \<le> 6"
      by (simp_all add: Suc_leI)
    have "take 7 (q @ ''Action:'' @ r) ! k = (q @ ''Action:'' @ r) ! k"
      by (rule nth_take) (use k in simp)
    also have "\<dots> = CHR ''A''"
      unfolding k_def by simp
    finally have "''Action:'' ! k = CHR ''A''"
      using eq by simp
    with no_A_inside [OF k] show False by simp
  qed
qed

lemma match_action_skips:
  "\<not> sublist ''Action:'' pre \<Longrightarrow> match_action (pre @ ''Action:'' @ r) = match_action (''Action:'' @ r)"
proof (induction pre)
  case Nil
  then show ?case by simp
next
  case (Cons c p)
  from Cons.prems have np: "\<not> sublist ''Action:'' p"
    by (auto simp: sublist_Cons_right)
  have "match_action_at ((c # p) @ ''Action:'' @ r) = None"
    using no_overlap [OF _ Cons.prems, of r] by (simp add: match_action_at_def)
  then have "match_action ((c # p) @ ''Action:'' @ r) = match_action (p @ ''Action:'' @ r)"
    by simp
  with Cons.IH [OF np] show ?case by simp
qed

lemma is_word_not_space: "is_word c \<Longrightarrow> \<not> is_space c"
  by (auto simp: is_word_def is_space_def Let_def)

lemma not_word_chars [simp]:
  "\<not> is_word CHR ''.''" "\<not> is_word CHR ''(''" "\<not> is_word CHR '')''" "\<not> is_word CHR ''=''"
  "\<not> is_word CHR '',''" "\<not> is_word CHR '' ''" "\<not> is_word CHR 0x22" "is_space CHR '' ''"
  by (simp_all add: is_word_def is_space_def)

lemma takeWhile_word:
  "list_all is_word a \<Longrightarrow> \<not> is_word c \<Longrightarrow> takeWhile is_word (a @ c # s) = a"
  by (induction a) auto

lemma dropWhile_word:
  "list_all is_word a \<Longrightarrow> \<not> is_word c \<Longrightarrow> dropWhile is_word (a @ c # s) = c # s"
  by (induction a) auto

lemma takeWhile_args:
  "list_all not_rparen xs \<Longrightarrow> takeWhile not_rparen (xs @ CHR '')'' # s) = xs"
  by (induction xs) (auto simp: not_rparen_def)

lemma dropWhile_args:
  "list_all not_rparen xs \<Longrightarrow> dropWhile not_rparen (xs @ CHR '')'' # s) = CHR '')'' # s"
  by (induction xs) (auto simp: not_rparen_def)

lemma dropWhile_space_word:
  "a \<noteq> [] \<Longrightarrow> list_all is_word a \<Longrightarrow> dropWhile is_space (a @ s) = a @ s"
  by (cases a) (auto simp: is_word_not_space)

lemma match_action_at_line:
  assumes a: "is_identifier a"
    and n: "name = a \<or> is_identifier b \<and> name = a @ ''.'' @ b"
    and args: "list_all not_rparen args"
  shows "match_action_at (''Action: '' @ name @ ''('' @ args @ '')'' @ post) = Some (name, args)"
proof -
  from a have a0: "a \<noteq> []" and aw: "list_all is_word a"
    by (simp_all add: is_identifier_def)
  from n show ?thesis
  proof
    assume "name = a"
    then show ?thesis
      using aw a0 args
      by (simp add: match_action_at_def Let_def dropWhile_space_word takeWhile_word
            dropWhile_word takeWhile_args dropWhile_args)
  next
    assume nb: "is_identifier b \<and> name = a @ ''.'' @ b"
    then have b0: "b \<noteq> []" and bw: "list_all is_word b" and nm: "name = a @ ''.'' @ b"
      by (simp_all add: is_identifier_def)
    show ?thesis
      using aw bw a0 b0 args unfolding nm
      by (simp add: match_action_at_def Let_def dropWhile_space_word takeWhile_word
            dropWhile_word takeWhile_args dropWhile_args)
  qed
qed

lemma list_all_takeWhile: "list_all P (takeWhile P xs)"
  by (induction xs) auto

lemma dropWhile_spaces:
  "list_all is_space ws \<Longrightarrow> a \<noteq> [] \<Longrightarrow> list_all is_word a \<Longrightarrow>
     dropWhile is_space (ws @ a @ s) = a @ s"
  by (induction ws) (auto simp: dropWhile_space_word)

text \<open>
  The scanners and the patterns. \<open>match_action_at\<close> succeeds on every text that the
  first pattern describes, with the groups of that description, and on no other text;
  so the description is unique and the matcher of the source, whose greedy choices
  only select among descriptions, finds the same groups. A successful
  \<open>match_param_at\<close> splits the text as the second pattern requires.
\<close>

lemma match_action_at_complete:
  assumes ws: "list_all is_space ws"
    and a: "is_identifier a"
    and n: "name = a \<or> is_identifier b \<and> name = a @ ''.'' @ b"
    and args: "list_all not_rparen args"
  shows "match_action_at (''Action:'' @ ws @ name @ ''('' @ args @ '')'' @ post)
           = Some (name, args)"
proof -
  from a have a0: "a \<noteq> []" and aw: "list_all is_word a"
    by (simp_all add: is_identifier_def)
  from n show ?thesis
  proof
    assume "name = a"
    then show ?thesis
      using aw a0 args dropWhile_spaces [OF ws a0 aw]
      by (simp add: match_action_at_def Let_def takeWhile_word
            dropWhile_word takeWhile_args dropWhile_args)
  next
    assume nb: "is_identifier b \<and> name = a @ ''.'' @ b"
    then have b0: "b \<noteq> []" and bw: "list_all is_word b" and nm: "name = a @ ''.'' @ b"
      by (simp_all add: is_identifier_def)
    show ?thesis
      using aw bw a0 b0 args dropWhile_spaces [OF ws a0 aw] unfolding nm
      by (simp add: match_action_at_def Let_def takeWhile_word
            dropWhile_word takeWhile_args dropWhile_args)
  qed
qed

lemma match_action_at_sound:
  assumes "match_action_at s = Some (name, args)"
  shows "\<exists>ws a b post.
           s = ''Action:'' @ ws @ name @ ''('' @ args @ '')'' @ post
           \<and> list_all is_space ws \<and> is_identifier a
           \<and> (name = a \<or> is_identifier b \<and> name = a @ ''.'' @ b)
           \<and> list_all not_rparen args"
proof -
  define s2 where "s2 = dropWhile is_space (drop 7 s)"
  define w1 where "w1 = takeWhile is_word s2"
  define s3 where "s3 = dropWhile is_word s2"
  define w2 where "w2 = (case s3 of c # t \<Rightarrow> if c = CHR ''.'' then takeWhile is_word t else [] | [] \<Rightarrow> [])"
  define s4 where "s4 = (if w2 = [] then s3 else dropWhile is_word (tl s3))"
  from assms have t7: "take 7 s = ''Action:''"
    by (auto simp: match_action_at_def split: if_splits)
  from assms t7 have w1n: "w1 \<noteq> []"
    by (auto simp: match_action_at_def Let_def w1_def s2_def split: if_splits)
  from assms t7 w1n
  have r: "s4 \<noteq> [] \<and> hd s4 = CHR ''('' \<and> dropWhile not_rparen (tl s4) \<noteq> []
      \<and> name = (if w2 = [] then w1 else w1 @ ''.'' @ w2)
      \<and> args = takeWhile not_rparen (tl s4)"
    unfolding s4_def
    by (cases "w2 = []")
       (auto simp: match_action_at_def Let_def w1_def [symmetric] s2_def [symmetric]
          s3_def [symmetric] w2_def [symmetric]
          simp del: dropWhile_eq_Nil_conv split: if_splits list.splits)
  define s5 where "s5 = tl s4"
  from r have s4: "s4 = CHR ''('' # s5"
    and nm: "name = (if w2 = [] then w1 else w1 @ ''.'' @ w2)"
    and ar: "args = takeWhile not_rparen s5"
    and dr: "dropWhile not_rparen s5 \<noteq> []"
    by (cases s4; simp add: s5_def del: dropWhile_eq_Nil_conv)+
  from dr obtain post where post: "dropWhile not_rparen s5 = CHR '')'' # post"
    by (cases "dropWhile not_rparen s5")
       (auto simp: dropWhile_eq_Cons_conv not_rparen_def)
  have s5: "s5 = args @ CHR '')'' # post"
    using takeWhile_dropWhile_id [of not_rparen s5] ar post by simp
  have s3n: "s3 = (if w2 = [] then [] else ''.'' @ w2) @ s4"
  proof (cases "w2 = []")
    case True
    then show ?thesis by (simp add: s4_def)
  next
    case False
    then obtain t where t: "s3 = CHR ''.'' # t" "w2 = takeWhile is_word t"
      by (auto simp: w2_def split: list.splits if_splits)
    with False show ?thesis
      by (simp add: s4_def)
  qed
  have "s = take 7 s @ drop 7 s" by simp
  also have "drop 7 s = takeWhile is_space (drop 7 s) @ s2"
    by (simp add: s2_def)
  also have "s2 = w1 @ s3"
    by (simp add: w1_def s3_def)
  finally have s: "s = ''Action:'' @ takeWhile is_space (drop 7 s) @ name @ ''('' @ args @ '')'' @ post"
    using t7 s3n s4 s5 nm by (simp split: if_splits)
  have id1: "is_identifier w1"
    using w1n by (simp add: is_identifier_def w1_def list_all_takeWhile)
  have id2: "w2 \<noteq> [] \<Longrightarrow> is_identifier w2"
    by (auto simp: is_identifier_def w2_def list_all_takeWhile split: list.splits if_splits)
  have "name = w1 \<or> is_identifier w2 \<and> name = w1 @ ''.'' @ w2"
    using nm id2 by auto
  with s id1 show ?thesis
    using list_all_takeWhile [of is_space "drop 7 s"] list_all_takeWhile [of not_rparen s5] ar
    by blast
qed

lemma scan_value_sound:
  "scan_value s = Some (v, r) \<Longrightarrow> s = v @ CHR 0x22 # r"
proof (induction s arbitrary: v r rule: scan_value.induct)
  case 1
  then show ?case by simp
next
  case (2 c)
  then show ?case by (simp split: if_splits)
next
  case (3 c d s)
  then show ?case
    by (auto split: if_splits option.splits)
qed

lemma match_param_at_sound:
  assumes "match_param_at s = Some (k, v, r)"
  shows "s = k @ CHR ''='' # CHR 0x22 # v @ CHR 0x22 # r \<and> is_identifier k"
proof -
  from assms obtain s2 where k: "k = takeWhile is_word s" "k \<noteq> []"
    and d: "dropWhile is_word s = CHR ''='' # CHR 0x22 # s2"
    and sv: "scan_value s2 = Some (v, r)"
    by (auto simp: match_param_at_def Let_def split: if_splits list.splits option.splits)
  have "s = takeWhile is_word s @ dropWhile is_word s" by simp
  with k d scan_value_sound [OF sv] show ?thesis
    by (simp add: is_identifier_def list_all_takeWhile)
qed

lemma scan_value_Cons:
  "scan_value (c # s) =
     (if c = CHR 0x22 then Some ([], s)
      else if c = CHR 0x5C then
        (case s of
           [] \<Rightarrow> None
         | d # s' \<Rightarrow>
             if is_line_terminator d then None
             else (case scan_value s' of None \<Rightarrow> None | Some (v, r) \<Rightarrow> Some (c # d # v, r)))
      else (case scan_value s of None \<Rightarrow> None | Some (v, r) \<Rightarrow> Some (c # v, r)))"
  by (cases s) auto

lemma scan_value_escaped:
  "list_all (\<lambda>c. c \<noteq> CHR 0x5C) v \<Longrightarrow>
     scan_value (escape_quotes v @ CHR 0x22 # rest) = Some (escape_quotes v, rest)"
proof (induction v)
  case Nil
  show ?case by (simp add: escape_quotes_def scan_value_Cons)
next
  case (Cons c v)
  then have ih: "scan_value (escape_quotes v @ CHR 0x22 # rest) = Some (escape_quotes v, rest)"
    and c: "c \<noteq> CHR 0x5C"
    by simp_all
  have e: "escape_quotes (c # v)
      = (if c = CHR 0x22 then [CHR 0x5C, CHR 0x22] else [c]) @ escape_quotes v"
    by (simp add: escape_quotes_def)
  show ?case
    using ih c by (simp add: e scan_value_Cons is_line_terminator_def)
qed

lemma unescape_Cons: "c \<noteq> CHR 0x5C \<Longrightarrow> unescape (c # s) = c # unescape s"
  by (cases s) auto

lemma unescape_escape:
  "list_all (\<lambda>c. c \<noteq> CHR 0x5C) v \<Longrightarrow> unescape (escape_quotes v) = v"
proof (induction v)
  case Nil
  show ?case by (simp add: escape_quotes_def)
next
  case (Cons c v)
  have e: "escape_quotes (c # v)
      = (if c = CHR 0x22 then [CHR 0x5C, CHR 0x22] else [c]) @ escape_quotes v"
    by (simp add: escape_quotes_def)
  from Cons show ?case
    by (simp add: e unescape_Cons)
qed

lemma match_param_at_rendered:
  assumes "is_identifier k" and "list_all (\<lambda>c. c \<noteq> CHR 0x5C) v"
  shows "match_param_at (render_param (k, v) @ rest) = Some (k, escape_quotes v, rest)"
  using assms scan_value_escaped [OF assms(2), of rest]
  by (simp add: match_param_at_def render_param_def Let_def is_identifier_def
        takeWhile_word dropWhile_word)

lemma matchAll_params_rendered:
  assumes "is_identifier k" and "list_all (\<lambda>c. c \<noteq> CHR 0x5C) v"
  shows "matchAll_params (render_param (k, v) @ rest)
           = (k, escape_quotes v) # matchAll_params rest"
proof -
  from assms(1) obtain c s where cs: "render_param (k, v) @ rest = c # s"
    by (cases k) (auto simp: render_param_def is_identifier_def)
  show ?thesis
    using match_param_at_rendered [OF assms, of rest]
    unfolding cs by simp
qed

lemma matchAll_params_separator: "matchAll_params ('', '' @ s) = matchAll_params s"
  by (simp add: match_param_at_def)

lemma matchAll_params_join:
  "list_all well_formed_param kvs \<Longrightarrow>
     matchAll_params (join '', '' (map render_param kvs))
       = map (\<lambda>kv. (fst kv, escape_quotes (snd kv))) kvs"
proof (induction kvs rule: induct_list012)
  case 1
  show ?case by simp
next
  case (2 kv)
  then have "is_identifier (fst kv)" "list_all (\<lambda>c. c \<noteq> CHR 0x5C) (snd kv)"
    by (simp_all add: well_formed_param_def plain_value_def list_all_iff)
  from matchAll_params_rendered [OF this, of "[]"] show ?case by simp
next
  case (3 kv kv' kvs)
  then have "is_identifier (fst kv)" "list_all (\<lambda>c. c \<noteq> CHR 0x5C) (snd kv)"
    by (simp_all add: well_formed_param_def plain_value_def list_all_iff)
  from matchAll_params_rendered [OF this, of "'', '' @ join '', '' (map render_param (kv' # kvs))"]
  have "matchAll_params (join '', '' (map render_param (kv # kv' # kvs)))
      = (fst kv, escape_quotes (snd kv))
          # matchAll_params ('', '' @ join '', '' (map render_param (kv' # kvs)))"
    by simp
  also have "matchAll_params ('', '' @ join '', '' (map render_param (kv' # kvs)))
      = matchAll_params (join '', '' (map render_param (kv' # kvs)))"
    by (rule matchAll_params_separator)
  finally show ?case using 3 by simp
qed

lemma fold_set_property:
  "list_all well_formed_param kvs \<Longrightarrow>
     fold (\<lambda>(k, v) ps. set_property ps k (unescape v))
          (map (\<lambda>kv. (fst kv, escape_quotes (snd kv))) kvs) m
       = m ++ map_of (rev kvs)"
proof (induction kvs arbitrary: m)
  case Nil
  show ?case by simp
next
  case (Cons kv kvs)
  then have k: "fst kv \<noteq> ''__proto__''" and v: "list_all (\<lambda>c. c \<noteq> CHR 0x5C) (snd kv)"
    and rest: "list_all well_formed_param kvs"
    by (simp_all add: well_formed_param_def plain_value_def list_all_iff)
  have "fold (\<lambda>(k, v) ps. set_property ps k (unescape v))
          (map (\<lambda>kv. (fst kv, escape_quotes (snd kv))) (kv # kvs)) m
      = fold (\<lambda>(k, v) ps. set_property ps k (unescape v))
          (map (\<lambda>kv. (fst kv, escape_quotes (snd kv))) kvs) (m(fst kv \<mapsto> snd kv))"
    using k by (simp add: set_property_def unescape_escape [OF v])
  also have "\<dots> = m(fst kv \<mapsto> snd kv) ++ map_of (rev kvs)"
    by (rule Cons.IH [OF rest])
  also have "\<dots> = m ++ map_of (rev (kv # kvs))"
    by (cases kv) (auto simp: map_add_def fun_eq_iff split: option.splits)
  finally show ?case .
qed

lemma word_not_rparen: "is_word c \<Longrightarrow> not_rparen c"
  by (auto simp: not_rparen_def)

lemma render_param_no_rparen:
  assumes "well_formed_param kv"
  shows "list_all not_rparen (render_param kv)"
proof -
  from assms have k: "list_all is_word (fst kv)"
    and v: "list_all (\<lambda>c. c \<noteq> CHR '')'') (snd kv)"
    by (simp_all add: well_formed_param_def is_identifier_def plain_value_def list_all_iff)
  from k have "list_all not_rparen (fst kv)"
    by (auto simp: list_all_iff word_not_rparen)
  moreover from v have "list_all not_rparen (escape_quotes (snd kv))"
    by (auto simp: list_all_iff escape_quotes_def not_rparen_def split: if_splits)
  ultimately show ?thesis
    by (simp add: render_param_def not_rparen_def)
qed

lemma join_no_rparen:
  "list_all well_formed_param kvs \<Longrightarrow>
     list_all not_rparen (join '', '' (map render_param kvs))"
proof (induction kvs rule: induct_list012)
  case 1
  show ?case by simp
next
  case (2 kv)
  then show ?case by (simp add: render_param_no_rparen)
next
  case (3 kv kv' kvs)
  have "not_rparen CHR '',''" "not_rparen CHR '' ''"
    by (simp_all add: not_rparen_def)
  with 3 show ?case by (simp add: render_param_no_rparen)
qed

text \<open>
  Claim C3, as the code has it. Let the text hold no \<open>Action:\<close> before a well-formed
  Action line whose tool name is a word or two words joined by a dot, whose keys are
  words other than \<open>__proto__\<close> and whose values hold no closing parenthesis (and no
  backslash besides those that escape quotes). Then \<open>parseToolCall\<close> returns that tool
  name and exactly the parameters of the line, with the escaped quotes unescaped; a
  key that occurs twice keeps its last value, as in an object literal. Whatever
  follows the line, a further Action line too, is ignored.
\<close>

theorem well_formed_action_parsed:
  assumes "is_identifier a"
    and "name = a \<or> is_identifier b \<and> name = a @ ''.'' @ b"
    and "list_all well_formed_param kvs"
    and "\<not> sublist ''Action:'' pre"
  shows "parseToolCall (pre @ action_line name kvs @ post)
           = Some \<lparr>toolName = name, params = map_of (rev kvs)\<rparr>"
proof -
  let ?args = "join '', '' (map render_param kvs)"
  let ?r = "'' '' @ name @ ''('' @ ?args @ '')'' @ post"
  have line: "action_line name kvs @ post = ''Action:'' @ ?r"
    by (simp add: action_line_def)
  have at: "match_action_at (''Action:'' @ ?r) = Some (name, ?args)"
    using match_action_at_line [OF assms(1,2) join_no_rparen [OF assms(3)], of post]
    by simp
  have "match_action (pre @ ''Action:'' @ ?r) = match_action (''Action:'' @ ?r)"
    by (rule match_action_skips [OF assms(4)])
  also have "\<dots> = Some (name, ?args)"
    using at by simp
  finally have m: "match_action (pre @ action_line name kvs @ post) = Some (name, ?args)"
    unfolding line .
  show ?thesis
    using fold_set_property [OF assms(3), of Map.empty]
    by (simp add: parseToolCall_def m matchAll_params_join [OF assms(3)])
qed

theorem well_formed_action_parsed_witness:
  \<open>is_identifier ''browser''
   \<and> is_identifier ''search''
   \<and> list_all well_formed_param [(''query'', ''say "hi"''), (''n'', ''2'')]
   \<and> \<not> sublist ''Action:'' ''Thought: search\<newline>''
   \<and> parseToolCall (''Thought: search\<newline>''
          @ action_line ''browser.search'' [(''query'', ''say "hi"''), (''n'', ''2'')]
          @ ''\<newline>Action: other()'')
       = Some \<lparr>toolName = ''browser.search'',
                params = [''query'' \<mapsto> ''say "hi"'', ''n'' \<mapsto> ''2'']\<rparr>\<close>
proof -
  have 1: "is_identifier ''browser''" and 2: "is_identifier ''search''"
    by (simp_all add: is_identifier_def is_word_def)
  have 3: \<open>list_all well_formed_param [(''query'', ''say "hi"''), (''n'', ''2'')]\<close>
    by (simp add: well_formed_param_def is_identifier_def is_word_def plain_value_def)
  have 4: "\<not> sublist ''Action:'' ''Thought: search\<newline>''"
    by (simp add: sublist_Cons_right)
  have 5: "''browser.search'' = ''browser'' \<or> is_identifier ''search''
             \<and> ''browser.search'' = ''browser'' @ ''.'' @ ''search''"
    using 2 by simp
  have 6: \<open>map_of (rev [(''query'', ''say "hi"''), (''n'', ''2'')])
            = [''query'' \<mapsto> ''say "hi"'', ''n'' \<mapsto> ''2'']\<close>
    by (auto simp: fun_eq_iff)
  from well_formed_action_parsed [OF 1 5 3 4, of "''\<newline>Action: other()''"] 1 2 3 4
  show ?thesis unfolding 6 by simp
qed

text \<open>
  Claim C3 as stated fails for a value that holds a closing parenthesis: the
  argument list \<open>[^)]*\<close> ends at the first \<open>)\<close> of the text, inside the value, and
  no parameter is recovered.
\<close>

theorem paren_in_value_truncates:
  \<open>parseToolCall ''Action: browser.type(selector="Name (first)", text="Ann")''
     = Some \<lparr>toolName = ''browser.type'', params = Map.empty\<rparr>
   \<and> parseToolCall ''Action: browser.type(selector="Name (first)", text="Ann")''
       \<noteq> Some \<lparr>toolName = ''browser.type'',
                 params = [''selector'' \<mapsto> ''Name (first)'', ''text'' \<mapsto> ''Ann'']\<rparr>\<close>
proof -
  have p: \<open>parseToolCall ''Action: browser.type(selector="Name (first)", text="Ann")''
     = Some \<lparr>toolName = ''browser.type'', params = Map.empty\<rparr>\<close>
    by (simp add: eval_defs)
  have "Map.empty \<noteq> [''selector'' \<mapsto> ''Name (first)'', ''text'' \<mapsto> ''Ann'']"
    by (rule notI, drule fun_cong [where x = "''text''"], simp)
  with p show ?thesis by simp
qed

subsection \<open>The turn budget of the buffered loop\<close>







subsection \<open>Unknown tool names\<close>

lemma unknown_tool_observation:
  \<open>get_property (toolRegistry a) (toolName tc) = None \<Longrightarrow>
     executeToolCall a tc w
       = (Inr (''Error: Tool "'' @ toolName tc @ ''" not found. Available tools are: ''
               @ join '', '' (keys (toolRegistry a))), w)\<close>
  by (simp add: executeToolCall_def)

text \<open>
  Claim C6 at the tool name \<open>toString\<close>, which the Action Parser accepts and which is
  no key of the registry: the property read \<open>this.toolRegistry[toolName]\<close> finds the
  inherited method, the test \<open>!tool\<close> fails, the method is called, and the observation
  is its result. It names neither the requested tool nor the registered tools.
\<close>

theorem inherited_name_is_called:
  "executeToolCall (example_agent (\<lambda>h. ''Action: toString()''))
      \<lparr>toolName = ''toString'', params = Map.empty\<rparr> ()
     = (Inr ''[object Undefined]'', ())
   \<and> ''toString'' \<notin> set (keys (toolRegistry (example_agent (\<lambda>h. ''Action: toString()''))))
   \<and> parseToolCall ''Action: toString()'' = Some \<lparr>toolName = ''toString'', params = Map.empty\<rparr>"
  by (simp add: eval_defs)

subsection \<open>Recovered tool failures\<close>

text \<open>
  Claim C7. When the tool registered under the requested name raises an error with
  message \<open>m\<close>, \<open>executeToolCall\<close> returns the observation
  \<open>Error executing tool <name>: <m>\<close> instead of failing. The turn of the buffered
  loop in which this happens goes on with the loop from the history extended by the
  assistant message and by the user message
  \<open>Observation: Error executing tool <name>: <m>\<close>, with the counter one higher and
  \<open>finalResponse\<close> unchanged. These two messages stay in the history that the loop
  leaves, at the place where they were appended. The loop is not left in this turn:
  if the budget allows another turn, that turn is taken.
\<close>

theorem tool_failure_recovered:
  assumes "map_of (own (toolRegistry a)) (toolName tc) = Some t"
    and "run t (params tc) w1 = (Raised m, w2)"
    and "\<not> truthy fr" and "turns < maxTurns"
    and "createChatCompletion (fireworksClient a) (messageHistory a) w = (Inr resp, w1)"
    and "parseToolCall resp = Some tc"
  shows "executeToolCall a tc w1
           = (Inr (''Error executing tool '' @ toolName tc @ '': '' @ m), w2)
    \<and> continue_while maxTurns turns fr a w
        = continue_while maxTurns (turns + 1) fr
            (a\<lparr>messageHistory := messageHistory a @
                 [\<lparr>role = Assistant, content = resp\<rparr>,
                  \<lparr>role = User,
                   content = ''Observation: Error executing tool '' @ toolName tc @ '': '' @ m\<rparr>]\<rparr>)
            w2
    \<and> prefix (messageHistory a @
                 [\<lparr>role = Assistant, content = resp\<rparr>,
                  \<lparr>role = User,
                   content = ''Observation: Error executing tool '' @ toolName tc @ '': '' @ m\<rparr>])
         (messageHistory (agent_after (continue_while maxTurns turns fr a w)))
    \<and> turns + 1 \<le> turns_taken (continue_while maxTurns turns fr a w)
    \<and> (turns + 1 < maxTurns
        \<longrightarrow> turns + 2 \<le> turns_taken (continue_while maxTurns turns fr a w))"
proof -
  let ?a = "a\<lparr>messageHistory := messageHistory a @
                 [\<lparr>role = Assistant, content = resp\<rparr>,
                  \<lparr>role = User,
                   content = ''Observation: Error executing tool '' @ toolName tc @ '': '' @ m\<rparr>]\<rparr>"
  have e: "executeToolCall a tc w1
           = (Inr (''Error executing tool '' @ toolName tc @ '': '' @ m), w2)"
    using assms(1,2) by (simp add: executeToolCall_def get_property_def)
  have "executeToolCall (push a Assistant resp) tc w1
      = (Inr (''Error executing tool '' @ toolName tc @ '': '' @ m), w2)"
    using assms(1,2) by (simp add: executeToolCall_def get_property_def push_def)
  then have step: "continue_while maxTurns turns fr a w
        = continue_while maxTurns (turns + 1) fr ?a w2"
    using assms(3-6) by (subst continue_while.simps) (simp add: push_def)
  have p: "prefix (messageHistory ?a)
             (messageHistory (agent_after (continue_while maxTurns (turns + 1) fr ?a w2)))"
    by (rule continue_while_extends)
  have t1: "turns + 1 \<le> turns_taken (continue_while maxTurns (turns + 1) fr ?a w2)"
    by (rule continue_while_turns_ge)
  have t2: "turns + 2 \<le> turns_taken (continue_while maxTurns (turns + 1) fr ?a w2)"
    if "turns + 1 < maxTurns"
    using continue_while_next_turn [OF assms(3) that, of ?a w2] by simp
  from e p t1 t2 show ?thesis
    unfolding step by simp
qed

theorem tool_failure_recovered_witness:
  "map_of (own (toolRegistry
       ((example_agent (\<lambda>h. ''Action: boom()''))
          \<lparr>messageHistory := initial_history (example_agent (\<lambda>h. ''Action: boom()'')) ''go''\<rparr>)))
     ''boom''
     = Some \<lparr>docs = [], run = (\<lambda>p w. (Raised ''kaput'', w))\<rparr>
   \<and> parseToolCall ''Action: boom()'' = Some \<lparr>toolName = ''boom'', params = Map.empty\<rparr>
   \<and> (0::nat) + 1 < 2
   \<and> executeToolCall
        ((example_agent (\<lambda>h. ''Action: boom()''))
           \<lparr>messageHistory := initial_history (example_agent (\<lambda>h. ''Action: boom()'')) ''go''\<rparr>)
        \<lparr>toolName = ''boom'', params = Map.empty\<rparr> ()
       = (Inr ''Error executing tool boom: kaput'', ())
   \<and> prefix (initial_history (example_agent (\<lambda>h. ''Action: boom()'')) ''go'' @
               [\<lparr>role = Assistant, content = ''Action: boom()''\<rparr>,
                \<lparr>role = User, content = ''Observation: Error executing tool boom: kaput''\<rparr>])
        (messageHistory (agent_after (continue_while 2 0 None
           ((example_agent (\<lambda>h. ''Action: boom()''))
              \<lparr>messageHistory := initial_history (example_agent (\<lambda>h. ''Action: boom()'')) ''go''\<rparr>)
           ())))
   \<and> 2 \<le> turns_taken (continue_while 2 0 None
           ((example_agent (\<lambda>h. ''Action: boom()''))
              \<lparr>messageHistory := initial_history (example_agent (\<lambda>h. ''Action: boom()'')) ''go''\<rparr>)
           ())"
proof -
  let ?a = "(example_agent (\<lambda>h. ''Action: boom()''))
              \<lparr>messageHistory := initial_history (example_agent (\<lambda>h. ''Action: boom()'')) ''go''\<rparr>"
  have 1: "map_of (own (toolRegistry ?a)) (toolName \<lparr>toolName = ''boom'', params = Map.empty\<rparr>)
     = Some \<lparr>docs = [], run = (\<lambda>p w. (Raised ''kaput'', w))\<rparr>"
    by (simp add: eval_defs)
  have 2: "run \<lparr>docs = [], run = (\<lambda>p w. (Raised ''kaput'', w))\<rparr>
             (params \<lparr>toolName = ''boom'', params = Map.empty\<rparr>) () = (Raised ''kaput'', ())"
    by simp
  have 3: "\<not> truthy None" by (simp add: truthy_def)
  have 4: "(0::nat) < 2" by simp
  have 5: "createChatCompletion (fireworksClient ?a) (messageHistory ?a) ()
           = (Inr ''Action: boom()'', ())"
    by (simp add: eval_defs)
  have 6: "parseToolCall ''Action: boom()'' = Some \<lparr>toolName = ''boom'', params = Map.empty\<rparr>"
    by (simp add: eval_defs)
  note c = tool_failure_recovered [OF 1 2 3 4 5 6]
  from 1 have a: "map_of (own (toolRegistry ?a)) ''boom''
     = Some \<lparr>docs = [], run = (\<lambda>p w. (Raised ''kaput'', w))\<rparr>"
    by simp
  from c [THEN conjunct1]
  have e: "executeToolCall ?a \<lparr>toolName = ''boom'', params = Map.empty\<rparr> ()
       = (Inr ''Error executing tool boom: kaput'', ())"
    by simp
  from c [THEN conjunct2, THEN conjunct2, THEN conjunct1]
  have p: "prefix (initial_history (example_agent (\<lambda>h. ''Action: boom()'')) ''go'' @
               [\<lparr>role = Assistant, content = ''Action: boom()''\<rparr>,
                \<lparr>role = User, content = ''Observation: Error executing tool boom: kaput''\<rparr>])
        (messageHistory (agent_after (continue_while 2 0 None ?a ())))"
    by simp
  from c [THEN conjunct2, THEN conjunct2, THEN conjunct2, THEN conjunct2]
  have t: "2 \<le> turns_taken (continue_while 2 0 None ?a ())"
    by simp
  have l: "(0::nat) + 1 < 2" by simp
  from a 6 l e p t show ?thesis by blast
qed

subsection \<open>Invalid input\<close>

text \<open>
  Claim C8. With an instruction that is absent or empty, \<open>processInstruction\<close> and
  \<open>processInstructionStream\<close> of the service fail with the error
  \<open>Instruction is required\<close>; the session store is the one before the call, no
  external call has been made (the world state is unchanged), and the streaming
  operation has emitted nothing.
\<close>

theorem invalid_instruction_rejected:
  "instruction = None \<or> instruction = Some [] \<Longrightarrow>
     result (processInstruction svc fresh sid instruction w)
       = Inl (InvalidInput ''Instruction is required'')
     \<and> sessions (service_after (processInstruction svc fresh sid instruction w)) = sessions svc
     \<and> world_final (processInstruction svc fresh sid instruction w) = w
     \<and> thrown (service_processInstructionStream svc fresh sid instruction w)
         = Some (InvalidInput ''Instruction is required'')
     \<and> emitted (service_processInstructionStream svc fresh sid instruction w) = []
     \<and> sessions (service_end (service_processInstructionStream svc fresh sid instruction w))
         = sessions svc
     \<and> world_last (service_processInstructionStream svc fresh sid instruction w) = w"
  by (auto simp: processInstruction_def service_processInstructionStream_def invalid_def
        truthy_def Let_def)

theorem invalid_instruction_rejected_witness:
  "(Some [] = (None :: string option) \<or> Some [] = Some ([] :: string))
   \<and> result (processInstruction example_service ''session-1'' None (Some []) ())
       = Inl (InvalidInput ''Instruction is required'')
   \<and> sessions (service_after (processInstruction example_service ''session-1'' None (Some []) ()))
       = Map.empty
   \<and> emitted (service_processInstructionStream example_service ''session-1'' None (Some []) ())
       = []"
  using invalid_instruction_rejected [of "Some []" example_service "''session-1''" None "()"]
  by (simp add: example_service_def)

subsection \<open>The shape of the Conversation State after a turn\<close>

lemma system_once_snoc: "system_once h \<Longrightarrow> r \<noteq> System \<Longrightarrow> system_once (h @ [\<lparr>role = r, content = c\<rparr>])"
  by (cases h) (auto simp: system_once_def)

lemma ends_settled_answer:
  "parseToolCall c = None \<Longrightarrow> ends_settled (h @ [\<lparr>role = Assistant, content = c\<rparr>])"
  by (simp add: ends_settled_def)

lemma ends_settled_observation:
  "ends_settled (h @ [\<lparr>role = User, content = ''Observation: '' @ obs\<rparr>])"
  by (simp add: ends_settled_def)

lemma settled_answer:
  "system_once (messageHistory a) \<Longrightarrow> parseToolCall c = None \<Longrightarrow> settled (push a Assistant c)"
  by (simp add: settled_def push_def system_once_snoc ends_settled_answer)

lemma settled_observation:
  "system_once (messageHistory a) \<Longrightarrow>
     settled (push (push a Assistant c) User (''Observation: '' @ obs))"
  using ends_settled_observation [of "messageHistory a @ [\<lparr>role = Assistant, content = c\<rparr>]" obs]
    system_once_snoc [OF system_once_snoc [of "messageHistory a" Assistant c], of User "''Observation: '' @ obs"]
  by (simp add: settled_def push_def)

lemma continue_while_settled:
  "settled a \<Longrightarrow> outcome (continue_while maxTurns turns fr a w) = Inr fr' \<Longrightarrow>
     settled (agent_after (continue_while maxTurns turns fr a w))"
proof (induction "maxTurns - turns" arbitrary: turns fr a w)
  case 0
  then show ?case
    by (cases rule: continue_while_cases [of fr turns maxTurns a w]) simp_all
next
  case (Suc n)
  then have n: "n = maxTurns - (turns + 1)" by simp
  have so: "system_once (messageHistory a)" using Suc.prems(1) by (simp add: settled_def)
  show ?case
  proof (cases rule: continue_while_cases [of fr turns maxTurns a w])
    case stop
    with Suc.prems show ?thesis by simp
  next
    case (fail err w1)
    with Suc.prems show ?thesis by simp
  next
    case (answer resp w1)
    have s: "settled (push a Assistant resp)" by (rule settled_answer [OF so answer(4)])
    from Suc.hyps(1) [OF n s] Suc.prems(2) show ?thesis unfolding answer(5) .
  next
    case (reject resp w1 tc err w2)
    with Suc.prems show ?thesis by simp
  next
    case (tool resp w1 tc obs w2)
    have s: "settled (push (push a Assistant resp) User (''Observation: '' @ obs))"
      by (rule settled_observation [OF so])
    from Suc.hyps(1) [OF n s] Suc.prems(2) show ?thesis unfolding tool(6) .
  qed
qed

lemma continue_while_first_turn:
  assumes "system_once (messageHistory a)"
    and "outcome (continue_while maxTurns turns fr a w) = Inr fr'"
    and "turns < turns_taken (continue_while maxTurns turns fr a w)"
  shows "settled (agent_after (continue_while maxTurns turns fr a w))"
proof (cases rule: continue_while_cases [of fr turns maxTurns a w])
  case stop
  with assms(3) show ?thesis by simp
next
  case (fail err w1)
  with assms(2) show ?thesis by simp
next
  case (answer resp w1)
  have s: "settled (push a Assistant resp)" by (rule settled_answer [OF assms(1) answer(4)])
  from continue_while_settled [OF s] assms(2) show ?thesis unfolding answer(5) .
next
  case (reject resp w1 tc err w2)
  with assms(2) show ?thesis by simp
next
  case (tool resp w1 tc obs w2)
  have s: "settled (push (push a Assistant resp) User (''Observation: '' @ obs))"
    by (rule settled_observation [OF assms(1)])
  from continue_while_settled [OF s] assms(2) show ?thesis unfolding tool(6) .
qed

lemma stream_while_settled:
  "settled a \<Longrightarrow> settled (agent_end (stream_while maxTurns turns sofar a w))"
proof (induction "maxTurns - turns" arbitrary: turns sofar a w)
  case 0
  then show ?case
    by (cases rule: stream_while_cases [of turns maxTurns sofar a w]) simp_all
next
  case (Suc n)
  then have n: "n = maxTurns - (turns + 1)" by simp
  have so: "system_once (messageHistory a)" using Suc.prems(1) by (simp add: settled_def)
  show ?case
  proof (cases rule: stream_while_cases [of turns maxTurns sofar a w])
    case stop
    with Suc.prems show ?thesis by simp
  next
    case (fail chunks err w1)
    with Suc.prems show ?thesis by simp
  next
    case (complete chunks w1)
    with settled_answer [OF so complete(3)] show ?thesis by simp
  next
    case (caught chunks w1 tc err w2)
    have s: "settled (push (push a Assistant (concat (chunk_contents chunks))) User
               (''Observation: '' @ ''Error executing tool '' @ toolName tc @ '': ''
                @ error_message err))"
      by (rule settled_observation [OF so])
    from Suc.hyps(1) [OF n s] show ?thesis unfolding caught(5) .
  next
    case (tool chunks w1 tc obs w2)
    have s: "settled (push (push a Assistant (concat (chunk_contents chunks))) User
               (''Observation: '' @ obs))"
      by (rule settled_observation [OF so])
    from Suc.hyps(1) [OF n s] show ?thesis unfolding tool(5) .
  qed
qed

lemma stream_while_first_turn:
  assumes "system_once (messageHistory a)"
    and "failure (stream_while maxTurns turns sofar a w) = None"
    and "turns < turns_at_exit (stream_while maxTurns turns sofar a w)"
  shows "settled (agent_end (stream_while maxTurns turns sofar a w))"
proof (cases rule: stream_while_cases [of turns maxTurns sofar a w])
  case stop
  with assms(3) show ?thesis by simp
next
  case (fail chunks err w1)
  with assms(2) show ?thesis by simp
next
  case (complete chunks w1)
  with settled_answer [OF assms(1) complete(3)] show ?thesis by simp
next
  case (caught chunks w1 tc err w2)
  have s: "settled (push (push a Assistant (concat (chunk_contents chunks))) User
             (''Observation: '' @ ''Error executing tool '' @ toolName tc @ '': ''
              @ error_message err))"
    by (rule settled_observation [OF assms(1)])
  from stream_while_settled [OF s] show ?thesis unfolding caught(5) .
next
  case (tool chunks w1 tc obs w2)
  have s: "settled (push (push a Assistant (concat (chunk_contents chunks))) User
             (''Observation: '' @ obs))"
    by (rule settled_observation [OF assms(1)])
  from stream_while_settled [OF s] show ?thesis unfolding tool(5) .
qed

lemma system_once_initial: "system_once (initial_history a instruction)"
  by (simp add: system_once_def initial_history_def)

text \<open>
  A run with a larger turn budget passes through the state in which the run with the
  budget \<open>n\<close> ends, so the end states of the runs with budget \<open>n\<close> are the states after
  turn \<open>n\<close>.
\<close>

lemma continue_while_resume:
  "n \<le> m \<Longrightarrow> outcome (continue_while n turns fr a w) = Inr fr' \<Longrightarrow>
     continue_while m turns fr a w
       = continue_while m (turns_taken (continue_while n turns fr a w)) fr'
           (agent_after (continue_while n turns fr a w))
           (world_after (continue_while n turns fr a w))"
proof (induction "n - turns" arbitrary: turns fr a w)
  case 0
  then show ?case
    by (cases rule: continue_while_cases [of fr turns n a w]) simp_all
next
  case (Suc k)
  then have k: "k = n - (turns + 1)" by simp
  show ?case
  proof (cases rule: continue_while_cases [of fr turns n a w])
    case stop
    with Suc.prems show ?thesis by simp
  next
    case (fail err w1)
    with Suc.prems show ?thesis by simp
  next
    case (answer resp w1)
    from answer(1,2) Suc.prems(1) have tm: "\<not> truthy fr \<and> turns < m" by simp
    have sm: "continue_while m turns fr a w
      = continue_while m (turns + 1) (Some resp) (push a Assistant resp) w1"
      using tm answer(3,4) by (subst continue_while.simps) simp
    from Suc.hyps(1) [OF k Suc.prems(1)] Suc.prems(2)
    show ?thesis unfolding answer(5) sm by simp
  next
    case (reject resp w1 tc err w2)
    with Suc.prems show ?thesis by simp
  next
    case (tool resp w1 tc obs w2)
    from tool(1,2) Suc.prems(1) have tm: "\<not> truthy fr \<and> turns < m" by simp
    have sm: "continue_while m turns fr a w
      = continue_while m (turns + 1) fr
          (push (push a Assistant resp) User (''Observation: '' @ obs)) w2"
      using tm tool(3,4,5) by (subst continue_while.simps) simp
    from Suc.hyps(1) [OF k Suc.prems(1)] Suc.prems(2)
    show ?thesis unfolding tool(6) sm by simp
  qed
qed

lemma stream_while_resume:
  assumes "n \<le> m" and "failure (stream_while n turns sofar a w) = None"
  shows "stream_while m turns sofar a w
           = stream_while m (turns_at_exit (stream_while n turns sofar a w))
               (trace (stream_while n turns sofar a w))
               (agent_end (stream_while n turns sofar a w))
               (world_end (stream_while n turns sofar a w))
         \<or> stream_while m turns sofar a w = stream_while n turns sofar a w"
  using assms
proof (induction "n - turns" arbitrary: turns sofar a w)
  case 0
  then show ?case
    by (cases rule: stream_while_cases [of turns n sofar a w]) simp_all
next
  case (Suc k)
  then have k: "k = n - (turns + 1)" by simp
  show ?case
  proof (cases rule: stream_while_cases [of turns n sofar a w])
    case stop
    then show ?thesis by simp
  next
    case (fail chunks err w1)
    with Suc.prems show ?thesis by simp
  next
    case (complete chunks w1)
    from complete(1) Suc.prems(1) have tm: "turns < m" by simp
    have "stream_while m turns sofar a w = stream_while n turns sofar a w"
      unfolding complete(4) using tm complete(2,3)
      by (subst stream_while.simps) (simp add: Let_def)
    then show ?thesis by simp
  next
    case (caught chunks w1 tc err w2)
    let ?s = "sofar @ map (\<lambda>c. Yield (AssistantEv c)) (chunk_contents chunks)
                @ [Yield (ToolCallEv (toolName tc) (params tc)), Execute tc (Inl err),
                   Yield (ErrorEv (''Error executing tool '' @ toolName tc @ '': ''
                                   @ error_message err))]"
    let ?a = "push (push a Assistant (concat (chunk_contents chunks))) User
                (''Observation: '' @ ''Error executing tool '' @ toolName tc @ '': ''
                 @ error_message err)"
    from caught(1) Suc.prems(1) have tm: "turns < m" by simp
    have sm: "stream_while m turns sofar a w = stream_while m (turns + 1) ?s ?a w2"
      using tm caught(2,3,4) by (subst stream_while.simps) (simp add: Let_def)
    have f: "failure (stream_while n (turns + 1) ?s ?a w2) = None"
      using Suc.prems(2) unfolding caught(5) .
    from Suc.hyps(1) [OF k Suc.prems(1) f]
    show ?thesis unfolding caught(5) sm .
  next
    case (tool chunks w1 tc obs w2)
    let ?s = "sofar @ map (\<lambda>c. Yield (AssistantEv c)) (chunk_contents chunks)
                @ [Yield (ToolCallEv (toolName tc) (params tc)), Execute tc (Inr obs),
                   Yield (ObservationEv obs)]"
    let ?a = "push (push a Assistant (concat (chunk_contents chunks))) User
                (''Observation: '' @ obs)"
    from tool(1) Suc.prems(1) have tm: "turns < m" by simp
    have sm: "stream_while m turns sofar a w = stream_while m (turns + 1) ?s ?a w2"
      using tm tool(2,3,4) by (subst stream_while.simps) (simp add: Let_def)
    have f: "failure (stream_while n (turns + 1) ?s ?a w2) = None"
      using Suc.prems(2) unfolding tool(5) .
    from Suc.hyps(1) [OF k Suc.prems(1) f]
    show ?thesis unfolding tool(5) sm .
  qed
qed

text \<open>
  The shape of the history after a turn. The loops are run from the state that
  \<open>processUserInstruction\<close> and \<open>processInstructionStream\<close> set up, with any turn
  budget \<open>n\<close>. Whenever the run is not cut short by an error and at least one turn was
  taken, the history has its only \<open>system\<close> message at index 0 and ends in an
  \<open>assistant\<close> message without a ToolCall or in a \<open>user\<close> message that starts with
  \<open>Observation: \<close>.
\<close>

lemma history_shape_after_turn:
  "(outcome (continue_while n 0 None (a\<lparr>messageHistory := initial_history a instruction\<rparr>) w)
        = Inr fr'
      \<and> 0 < turns_taken
          (continue_while n 0 None (a\<lparr>messageHistory := initial_history a instruction\<rparr>) w)
      \<longrightarrow> system_once (messageHistory (agent_after
             (continue_while n 0 None (a\<lparr>messageHistory := initial_history a instruction\<rparr>) w)))
          \<and> ends_settled (messageHistory (agent_after
             (continue_while n 0 None (a\<lparr>messageHistory := initial_history a instruction\<rparr>) w))))
   \<and> (failure (stream_while n 0 [] (a\<lparr>messageHistory := initial_history a instruction\<rparr>) w)
        = None
      \<and> 0 < turns_at_exit
          (stream_while n 0 [] (a\<lparr>messageHistory := initial_history a instruction\<rparr>) w)
      \<longrightarrow> system_once (messageHistory (agent_end
             (stream_while n 0 [] (a\<lparr>messageHistory := initial_history a instruction\<rparr>) w)))
          \<and> ends_settled (messageHistory (agent_end
             (stream_while n 0 [] (a\<lparr>messageHistory := initial_history a instruction\<rparr>) w))))"
proof -
  have so: "system_once (messageHistory (a\<lparr>messageHistory := initial_history a instruction\<rparr>))"
    by (simp add: system_once_initial)
  show ?thesis
    using continue_while_first_turn [OF so, of n 0 None w fr']
      stream_while_first_turn [OF so, of n 0 "[]" w]
    by (simp add: settled_def)
qed

text \<open>
  Claim C9 at the model \<open>empty_then_hello\<close>, in buffered mode. After the first turn
  the history ends in an \<open>assistant\<close> message from which the Action Parser extracts no
  ToolCall: the case that the claim calls terminal, the text being the final answer.
  The text is empty, the test \<open>!finalResponse\<close> takes it for not yet set, and the loop
  takes a second turn: the run has two turns, the history ends in two \<open>assistant\<close>
  messages, and the answer returned is the text of the second.
\<close>

theorem empty_answer_is_not_terminal:
  "messageHistory (agent_after (continue_while 1 0 None
       ((example_agent empty_then_hello)
          \<lparr>messageHistory := initial_history (example_agent empty_then_hello) ''go''\<rparr>) ()))
     = initial_history (example_agent empty_then_hello) ''go''
         @ [\<lparr>role = Assistant, content = []\<rparr>]
   \<and> turns_taken (continue_while 1 0 None
       ((example_agent empty_then_hello)
          \<lparr>messageHistory := initial_history (example_agent empty_then_hello) ''go''\<rparr>) ()) = 1
   \<and> parseToolCall [] = None
   \<and> turns_used (processUserInstruction (example_agent empty_then_hello) (Some ''go'') ()) = 2
   \<and> messageHistory (agent_now
        (processUserInstruction (example_agent empty_then_hello) (Some ''go'') ()))
     = initial_history (example_agent empty_then_hello) ''go''
         @ [\<lparr>role = Assistant, content = []\<rparr>, \<lparr>role = Assistant, content = ''hello''\<rparr>]
   \<and> returned (processUserInstruction (example_agent empty_then_hello) (Some ''go'') ())
       = Inr ''hello''"
  by (simp add: processUserInstruction_def continueConversation_def continue_while.simps
        truthy_def initial_history_def empty_then_hello_def eval_defs)

subsection \<open>Events around a tool call\<close>









subsection \<open>Terminal events of the streaming loop\<close>

text \<open>
  A streaming run that the provider does not interrupt and in which no execution of a
  tool is rejected ends in one of three ways: with
  one \<open>complete\<close> event before the 15th turn, with one \<open>error\<close> event after 15 turns
  that all called a tool, or with a \<open>complete\<close> event on the 15th turn followed by an
  \<open>error\<close> event.
\<close>

lemma stream_while_terminals:
  "failure (stream_while maxTurns turns sofar a w) = None \<Longrightarrow>
   rejections (trace (stream_while maxTurns turns sofar a w)) = [] \<Longrightarrow>
     terminals (trace (stream_while maxTurns turns sofar a w)) = terminals sofar
       \<and> turns_at_exit (stream_while maxTurns turns sofar a w) = max maxTurns turns
     \<or> (\<exists>c. terminals (trace (stream_while maxTurns turns sofar a w))
               = terminals sofar @ [CompleteEv c])
       \<and> turns_at_exit (stream_while maxTurns turns sofar a w) \<le> maxTurns"
proof (induction "maxTurns - turns" arbitrary: turns sofar a w)
  case 0
  then show ?case
    by (cases rule: stream_while_cases [of turns maxTurns sofar a w]) simp_all
next
  case (Suc n)
  then have n: "n = maxTurns - (turns + 1)" by simp
  show ?case
  proof (cases rule: stream_while_cases [of turns maxTurns sofar a w])
    case stop
    then show ?thesis by simp
  next
    case (fail chunks err w1)
    with Suc.prems show ?thesis by simp
  next
    case (complete chunks w1)
    then show ?thesis by simp
  next
    case (caught chunks w1 tc err w2)
    let ?s = "sofar @ map (\<lambda>c. Yield (AssistantEv c)) (chunk_contents chunks)
                @ [Yield (ToolCallEv (toolName tc) (params tc)), Execute tc (Inl err),
                   Yield (ErrorEv (''Error executing tool '' @ toolName tc @ '': ''
                                   @ error_message err))]"
    have "prefix ?s (trace (stream_while maxTurns turns sofar a w))"
      unfolding caught(5) by (rule stream_while_trace_extends)
    then obtain ys where "trace (stream_while maxTurns turns sofar a w) = ?s @ ys"
      unfolding prefix_def by blast
    with Suc.prems(2) show ?thesis by simp
  next
    case (tool chunks w1 tc obs w2)
    let ?s = "sofar @ map (\<lambda>c. Yield (AssistantEv c)) (chunk_contents chunks)
                @ [Yield (ToolCallEv (toolName tc) (params tc)), Execute tc (Inr obs),
                   Yield (ObservationEv obs)]"
    let ?a = "push (push a Assistant (concat (chunk_contents chunks))) User
                (''Observation: '' @ obs)"
    have f: "failure (stream_while maxTurns (turns + 1) ?s ?a w2) = None"
      using Suc.prems(1) unfolding tool(5) .
    have r: "rejections (trace (stream_while maxTurns (turns + 1) ?s ?a w2)) = []"
      using Suc.prems(2) unfolding tool(5) .
    have t: "terminals ?s = terminals sofar" by simp
    have m: "max maxTurns (turns + 1) = max maxTurns turns"
      using tool(1) by simp
    from Suc.hyps(1) [OF n f r, unfolded t m]
    show ?thesis unfolding tool(5) .
  qed
qed

lemma stream_terminal_events:
  assumes "failure (processInstructionStream a (Some instruction) w) = None"
    and "rejections (trace (processInstructionStream a (Some instruction) w)) = []"
  shows "(\<exists>c. terminals (trace (processInstructionStream a (Some instruction) w))
               = [CompleteEv c]
             \<and> turns_at_exit (processInstructionStream a (Some instruction) w) < 15)
       \<or> (\<exists>c. terminals (trace (processInstructionStream a (Some instruction) w))
               = [CompleteEv c, ErrorEv ''Maximum conversation turns reached.'']
             \<and> turns_at_exit (processInstructionStream a (Some instruction) w) = 15)
       \<or> (terminals (trace (processInstructionStream a (Some instruction) w))
               = [ErrorEv ''Maximum conversation turns reached.'']
             \<and> turns_at_exit (processInstructionStream a (Some instruction) w) = 15)"
proof (cases "instruction = []")
  case True
  with assms show ?thesis by (simp add: processInstructionStream_def)
next
  case False
  let ?r = "stream_while 15 0 [] (a\<lparr>messageHistory := initial_history a instruction\<rparr>) w"
  from assms(1) False have f: "failure ?r = None"
    by (simp add: processInstructionStream_def Let_def split: if_splits)
  from assms(2) False have r: "rejections (trace ?r) = []"
    by (simp add: processInstructionStream_def Let_def split: if_splits)
  from stream_while_terminals [OF f r] f False show ?thesis
    by (auto simp: processInstructionStream_def Let_def)
qed

text \<open>
  Claim C2 at the model \<open>late_answer\<close>: the 15th turn yields the \<open>complete\<close> event and
  leaves the loop with \<open>break\<close>; the test \<open>turns >= maxTurns\<close> after the loop then
  holds as well, and an \<open>error\<close> event follows. The run has two terminal events.
\<close>

theorem late_answer_two_terminals:
  "filter terminal (events (trace (processInstructionStream (example_agent late_answer) (Some ''go'') ())))
     = [CompleteEv ''done'', ErrorEv ''Maximum conversation turns reached.'']
   \<and> turns_at_exit (processInstructionStream (example_agent late_answer) (Some ''go'') ()) = 15"
  by (simp add: processInstructionStream_def stream_while.simps initial_history_def
        chunk_contents_def late_answer_def events_def terminal_def eval_defs)

subsection \<open>Buffered answer and \<open>complete\<close> event\<close>

text \<open>
  With a stub that agrees in both modes, and in a run in which no execution of a tool
  is rejected, a \<open>complete\<close> event whose content is not empty carries the text that
  the buffered operation returns.
\<close>

lemma agrees_buffered:
  assumes "agrees c"
    and "createChatCompletionStream c h w = ((chunks, None), w1)"
  shows "createChatCompletion c h w = (Inr (concat (chunk_contents chunks)), w1)"
proof -
  obtain r w' where b: "createChatCompletion c h w = (r, w')" by fastforce
  show ?thesis
  proof (cases r)
    case (Inl e)
    with assms b show ?thesis
      by (auto simp: agrees_def dest!: spec [of _ h] spec [of _ w])
  next
    case (Inr t)
    with assms b show ?thesis
      by (auto simp: agrees_def dest!: spec [of _ h] spec [of _ w])
  qed
qed

lemma lockstep:
  assumes "agrees (fireworksClient a)" and "c \<noteq> []"
    and "CompleteEv c \<in> set (events (trace (stream_while maxTurns turns sofar a w)))"
    and "CompleteEv c \<notin> set (events sofar)"
    and "rejections (trace (stream_while maxTurns turns sofar a w)) = []"
  shows "outcome (continue_while maxTurns turns None a w) = Inr (Some c)"
  using assms
proof (induction "maxTurns - turns" arbitrary: turns sofar a w)
  case 0
  then show ?case
    by (cases rule: stream_while_cases [of turns maxTurns sofar a w]) simp_all
next
  case (Suc n)
  then have n: "n = maxTurns - (turns + 1)" by simp
  have nt: "\<not> truthy None" by (simp add: truthy_def)
  show ?case
  proof (cases rule: stream_while_cases [of turns maxTurns sofar a w])
    case stop
    with Suc.prems show ?thesis by simp
  next
    case (fail chunks err w1)
    with Suc.prems show ?thesis by (auto simp: events_assistant)
  next
    case (complete chunks w1)
    let ?resp = "concat (chunk_contents chunks)"
    from Suc.prems(3,4) have c: "c = ?resp"
      unfolding complete(4) by (auto simp: events_assistant)
    have b: "createChatCompletion (fireworksClient a) (messageHistory a) w = (Inr ?resp, w1)"
      by (rule agrees_buffered [OF Suc.prems(1) complete(2)])
    have "continue_while maxTurns turns None a w
        = continue_while maxTurns (turns + 1) (Some ?resp) (push a Assistant ?resp) w1"
      using complete(1,3) b nt by (subst continue_while.simps) simp
    also have "outcome \<dots> = Inr (Some ?resp)"
      using Suc.prems(2) c by (subst continue_while.simps) (simp add: truthy_def)
    finally show ?thesis using c by simp
  next
    case (caught chunks w1 tc err w2)
    let ?s = "sofar @ map (\<lambda>c. Yield (AssistantEv c)) (chunk_contents chunks)
                @ [Yield (ToolCallEv (toolName tc) (params tc)), Execute tc (Inl err),
                   Yield (ErrorEv (''Error executing tool '' @ toolName tc @ '': ''
                                   @ error_message err))]"
    have "prefix ?s (trace (stream_while maxTurns turns sofar a w))"
      unfolding caught(5) by (rule stream_while_trace_extends)
    then obtain ys where "trace (stream_while maxTurns turns sofar a w) = ?s @ ys"
      unfolding prefix_def by blast
    with Suc.prems(5) show ?thesis by simp
  next
    case (tool chunks w1 tc obs w2)
    let ?resp = "concat (chunk_contents chunks)"
    let ?s = "sofar @ map (\<lambda>c. Yield (AssistantEv c)) (chunk_contents chunks)
                @ [Yield (ToolCallEv (toolName tc) (params tc)), Execute tc (Inr obs),
                   Yield (ObservationEv obs)]"
    let ?a = "push (push a Assistant ?resp) User (''Observation: '' @ obs)"
    have b: "createChatCompletion (fireworksClient a) (messageHistory a) w = (Inr ?resp, w1)"
      by (rule agrees_buffered [OF Suc.prems(1) tool(2)])
    have step: "continue_while maxTurns turns None a w
        = continue_while maxTurns (turns + 1) None ?a w2"
      using tool(1,3,4) b nt by (subst continue_while.simps) simp
    have 1: "agrees (fireworksClient ?a)" using Suc.prems(1) by simp
    have 3: "CompleteEv c \<in> set (events (trace (stream_while maxTurns (turns + 1) ?s ?a w2)))"
      using Suc.prems(3) unfolding tool(5) .
    have 4: "CompleteEv c \<notin> set (events ?s)"
      using Suc.prems(4) by (auto simp: events_assistant)
    have 5: "rejections (trace (stream_while maxTurns (turns + 1) ?s ?a w2)) = []"
      using Suc.prems(5) unfolding tool(5) .
    from Suc.hyps(1) [OF n 1 Suc.prems(2) 3 4 5] show ?thesis
      unfolding step .
  qed
qed

lemma buffered_matches_complete:
  assumes "agrees (fireworksClient a)" and "c \<noteq> []"
    and "CompleteEv c \<in> set (events (trace (processInstructionStream a instruction w)))"
    and "rejections (trace (processInstructionStream a instruction w)) = []"
  shows "returned (processUserInstruction a instruction w) = Inr c"
proof -
  from assms(3) obtain i where i: "instruction = Some i" "i \<noteq> []"
    by (cases instruction) (auto simp: processInstructionStream_def split: if_splits)
  let ?a = "a\<lparr>messageHistory := initial_history a i\<rparr>"
  from assms(3) i
  have "CompleteEv c \<in> set (events (trace (stream_while 15 0 [] ?a w)))"
    by (auto simp: processInstructionStream_def Let_def split: if_splits)
  moreover from assms(4) i
  have "rejections (trace (stream_while 15 0 [] ?a w)) = []"
    by (auto simp: processInstructionStream_def Let_def split: if_splits)
  moreover have "agrees (fireworksClient ?a)" using assms(1) by simp
  moreover have "CompleteEv c \<notin> set (events [])" by simp
  ultimately have "outcome (continue_while 15 0 None ?a w) = Inr (Some c)"
    using assms(2) by (intro lockstep [where sofar = "[]"])
  with i assms(2) show ?thesis
    by (simp add: processUserInstruction_def continueConversation_def Let_def)
qed

text \<open>
  Claim C5 at the model \<open>empty_then_hello\<close>: the streaming loop ends on the first turn
  with a \<open>complete\<close> event whose content is empty. The buffered loop stores the empty
  text in \<open>finalResponse\<close>, which \<open>!finalResponse\<close> takes for not yet set, asks the model
  again and returns \<open>hello\<close>.
\<close>

theorem empty_answer_diverges:
  "returned (processUserInstruction (example_agent empty_then_hello) (Some ''go'') ()) = Inr ''hello''
   \<and> events (trace (processInstructionStream (example_agent empty_then_hello) (Some ''go'') ()))
       = [CompleteEv []]"
  by (simp add: processUserInstruction_def continueConversation_def continue_while.simps truthy_def
        processInstructionStream_def stream_while.simps initial_history_def
        chunk_contents_def empty_then_hello_def events_def eval_defs)

subsection \<open>Session reuse\<close>

lemma processUserInstruction_extends:
  "text \<noteq> [] \<Longrightarrow>
     prefix (initial_history a text)
       (messageHistory (agent_now (processUserInstruction a (Some text) w)))"
  using continue_while_extends [of "a\<lparr>messageHistory := initial_history a text\<rparr>" 15 0 None w]
  by (simp add: processUserInstruction_def continueConversation_def Let_def)

lemma processInstructionStream_extends:
  "text \<noteq> [] \<Longrightarrow>
     prefix (initial_history a text)
       (messageHistory (agent_end (processInstructionStream a (Some text) w)))"
  using stream_while_extends [of "a\<lparr>messageHistory := initial_history a text\<rparr>" 15 0 "[]" w]
  by (simp add: processInstructionStream_def Let_def)

lemma initial_history_forgets:
  "initial_history (a\<lparr>messageHistory := h\<rparr>) text = initial_history a text"
  by (simp add: initial_history_def getSystemPrompt_def)

lemma processUserInstruction_forgets:
  "text \<noteq> [] \<Longrightarrow>
     processUserInstruction (a\<lparr>messageHistory := h\<rparr>) (Some text) w
       = processUserInstruction a (Some text) w"
  by (simp add: processUserInstruction_def initial_history_forgets)

lemma processInstructionStream_forgets:
  "text \<noteq> [] \<Longrightarrow>
     processInstructionStream (a\<lparr>messageHistory := h\<rparr>) (Some text) w
       = processInstructionStream a (Some text) w"
  by (simp add: processInstructionStream_def initial_history_forgets)

text \<open>
  Claim C1, as the code has it. A second instruction sent with the id of a live
  session reuses that session's agent: no session is created. The agent's history is
  set anew to the system message and the new instruction before the loop starts, so
  the history after the call begins with these two messages, and the whole result of
  the call is the same whatever the history of the session was before it. This holds
  in buffered and in streaming mode.
\<close>

theorem session_reuse_restarts_history:
  assumes "sessions svc i = Some agent" and "i \<noteq> []" and "text \<noteq> []"
  shows "dom (sessions (service_after (processInstruction svc fresh (Some i) (Some text) w)))
           = dom (sessions svc)
    \<and> (\<exists>a'. sessions (service_after (processInstruction svc fresh (Some i) (Some text) w)) i
               = Some a'
             \<and> prefix (initial_history agent text) (messageHistory a'))
    \<and> processInstruction (svc\<lparr>sessions := (sessions svc)(i \<mapsto> agent\<lparr>messageHistory := h\<rparr>)\<rparr>)
          fresh (Some i) (Some text) w
        = processInstruction svc fresh (Some i) (Some text) w
    \<and> dom (sessions (service_end
              (service_processInstructionStream svc fresh (Some i) (Some text) w)))
           = dom (sessions svc)
    \<and> (\<exists>a'. sessions (service_end
                  (service_processInstructionStream svc fresh (Some i) (Some text) w)) i
               = Some a'
             \<and> prefix (initial_history agent text) (messageHistory a'))
    \<and> service_processInstructionStream
          (svc\<lparr>sessions := (sessions svc)(i \<mapsto> agent\<lparr>messageHistory := h\<rparr>)\<rparr>)
          fresh (Some i) (Some text) w
        = service_processInstructionStream svc fresh (Some i) (Some text) w"
proof -
  have v: "\<not> invalid (Some text)"
    using assms(3) by (simp add: invalid_def truthy_def)
  have g: "get_or_create (svc\<lparr>initialized := True\<rparr>) fresh (Some i) = (i, agent, False)"
    using assms(1,2) by (simp add: get_or_create_def)
  have g': "get_or_create
      (svc\<lparr>sessions := (sessions svc)(i \<mapsto> agent\<lparr>messageHistory := h\<rparr>), initialized := True\<rparr>)
      fresh (Some i) = (i, agent\<lparr>messageHistory := h\<rparr>, False)"
    using assms(2) by (simp add: get_or_create_def)
  have d: "insert i (dom (sessions svc)) = dom (sessions svc)"
    using assms(1) by auto
  show ?thesis
    using processUserInstruction_extends [OF assms(3), of agent w]
      processInstructionStream_extends [OF assms(3), of agent w]
    by (simp add: processInstruction_def service_processInstructionStream_def Let_def v g g' d
          processUserInstruction_forgets [OF assms(3)]
          processInstructionStream_forgets [OF assms(3)])
qed

theorem session_reuse_restarts_history_witness:
  "sessions (service_after first_call) ''session-1''
      = Some ((example_agent (\<lambda>h. ''hi''))
          \<lparr>messageHistory := initial_history (example_agent (\<lambda>h. ''hi'')) ''first''
             @ [\<lparr>role = Assistant, content = ''hi''\<rparr>]\<rparr>)
   \<and> ''session-1'' \<noteq> [] \<and> ''second'' \<noteq> []
   \<and> dom (sessions (service_after
        (processInstruction (service_after first_call) ''session-2'' (Some ''session-1'')
           (Some ''second'') ())))
       = dom (sessions (service_after first_call))
   \<and> (\<exists>a'. sessions (service_after
        (processInstruction (service_after first_call) ''session-2'' (Some ''session-1'')
           (Some ''second'') ())) ''session-1'' = Some a'
         \<and> prefix (initial_history ((example_agent (\<lambda>h. ''hi''))
          \<lparr>messageHistory := initial_history (example_agent (\<lambda>h. ''hi'')) ''first''
             @ [\<lparr>role = Assistant, content = ''hi''\<rparr>]\<rparr>) ''second'') (messageHistory a'))
   \<and> processInstruction
        ((service_after first_call)
           \<lparr>sessions := (sessions (service_after first_call))
              (''session-1'' \<mapsto> ((example_agent (\<lambda>h. ''hi''))
          \<lparr>messageHistory := initial_history (example_agent (\<lambda>h. ''hi'')) ''first''
             @ [\<lparr>role = Assistant, content = ''hi''\<rparr>]\<rparr>)\<lparr>messageHistory := []\<rparr>)\<rparr>)
        ''session-2'' (Some ''session-1'') (Some ''second'') ()
       = processInstruction (service_after first_call) ''session-2'' (Some ''session-1'')
           (Some ''second'') ()
   \<and> dom (sessions (service_end
        (service_processInstructionStream (service_after first_call) ''session-2''
           (Some ''session-1'') (Some ''second'') ())))
       = dom (sessions (service_after first_call))
   \<and> (\<exists>a'. sessions (service_end
        (service_processInstructionStream (service_after first_call) ''session-2''
           (Some ''session-1'') (Some ''second'') ())) ''session-1'' = Some a'
         \<and> prefix (initial_history ((example_agent (\<lambda>h. ''hi''))
          \<lparr>messageHistory := initial_history (example_agent (\<lambda>h. ''hi'')) ''first''
             @ [\<lparr>role = Assistant, content = ''hi''\<rparr>]\<rparr>) ''second'') (messageHistory a'))
   \<and> service_processInstructionStream
        ((service_after first_call)
           \<lparr>sessions := (sessions (service_after first_call))
              (''session-1'' \<mapsto> ((example_agent (\<lambda>h. ''hi''))
          \<lparr>messageHistory := initial_history (example_agent (\<lambda>h. ''hi'')) ''first''
             @ [\<lparr>role = Assistant, content = ''hi''\<rparr>]\<rparr>)\<lparr>messageHistory := []\<rparr>)\<rparr>)
        ''session-2'' (Some ''session-1'') (Some ''second'') ()
       = service_processInstructionStream (service_after first_call) ''session-2''
           (Some ''session-1'') (Some ''second'') ()"
proof -
  let ?agent = "(example_agent (\<lambda>h. ''hi''))
          \<lparr>messageHistory := initial_history (example_agent (\<lambda>h. ''hi'')) ''first''
             @ [\<lparr>role = Assistant, content = ''hi''\<rparr>]\<rparr>"
  have 1: "sessions (service_after first_call) ''session-1'' = Some ?agent"
    by (simp add: first_call_def processInstruction_def invalid_def truthy_def
          get_or_create_def example_service_def processUserInstruction_def
          continueConversation_def continue_while.simps eval_defs)
  have 2: "''session-1'' \<noteq> []" and 3: "''second'' \<noteq> []" by simp_all
  note c = session_reuse_restarts_history [OF 1 2 3, of "''session-2''" "()" "[]"]
  show ?thesis by (rule conjI [OF 1 conjI [OF 2 conjI [OF 3 c]]])
qed

text \<open>
  Claim C1 as stated fails: with a model that answers \<open>hi\<close> at once, the history of
  the session has three messages after the first instruction and three after the
  second, and the history after the first is not a prefix of the history after the
  second.
\<close>

theorem second_instruction_replaces_history:
  "result first_call = Inr (''session-1'', ''hi'')
   \<and> result second_call = Inr (''session-1'', ''hi'')
   \<and> length (history_of (service_after first_call) ''session-1'') = 3
   \<and> length (history_of (service_after second_call) ''session-1'') = 3
   \<and> \<not> (length (history_of (service_after first_call) ''session-1'')
           < length (history_of (service_after second_call) ''session-1'')
         \<and> prefix (history_of (service_after first_call) ''session-1'')
             (history_of (service_after second_call) ''session-1''))"
  by (simp add: first_call_def second_call_def processInstruction_def invalid_def truthy_def
        get_or_create_def example_service_def processUserInstruction_def
        continueConversation_def continue_while.simps initial_history_def history_of_def
        getSessionInfo_def eval_defs)

end
